theory Spec2Isabelle
  imports Main "HOL-Library.Sublist"
begin

section \<open>Python values and exceptions\<close>

datatype py_exc =
    IndexError | ZeroDivisionError | ValueError | TypeError | AttributeError
  | KeyError | UnicodeDecodeError | JSONDecodeError | OSError
  | RuntimeError | ChildProcessError | ProcessLookupError

datatype 'a outcome = Ok 'a | Raise py_exc | Unmodelled

definition obind :: "'a outcome \<Rightarrow> ('a \<Rightarrow> 'b outcome) \<Rightarrow> 'b outcome" where
  "obind r f = (case r of Ok v \<Rightarrow> f v | Raise e \<Rightarrow> Raise e | Unmodelled \<Rightarrow> Unmodelled)"

datatype json =
    JNull | JBool bool | JInt int | JStr string
  | JArr "json list" | JObj "(string \<times> json) list"

section \<open>benchmark/factorial.py\<close>

text \<open>
  \<^verbatim>\<open>
  def factorial(n: int) -> int:
      if n <= 1:
          return 1
      else:
          return n * factorial(n - 1)
  \<close>
  Python integers are unbounded, so the argument and the result are \<open>int\<close>.
\<close>

function factorial :: "int \<Rightarrow> int" where
  "factorial n = (if n \<le> 1 then 1 else n * factorial (n - 1))"
  by pat_completeness auto
termination
  by (relation "measure (\<lambda>n. nat n)") auto

declare factorial.simps [simp del]

section \<open>benchmark/sieve.py\<close>

text \<open>
  The sieve works on one Python list of integers, \<open>arr\<close>, which the helper procedures
  update in place; here each of them returns the updated list. (The parameter \<open>size\<close>
  of the source is written \<open>sz\<close>.) \<open>arr[i]\<close> follows
  Python: an index from \<open>-len\<close> up to \<open>len - 1\<close> is accepted, a negative one counting
  from the end, and any other raises \<open>IndexError\<close>.
\<close>

definition list_index :: "int list \<Rightarrow> int \<Rightarrow> nat outcome" where
  "list_index arr i =
     (if 0 \<le> i \<and> i < int (length arr) then Ok (nat i)
      else if - int (length arr) \<le> i \<and> i < 0 then Ok (nat (i + int (length arr)))
      else Raise IndexError)"

definition list_getitem :: "int list \<Rightarrow> int \<Rightarrow> int outcome" where
  "list_getitem arr i = obind (list_index arr i) (\<lambda>k. Ok (arr ! k))"

definition list_setitem :: "int list \<Rightarrow> int \<Rightarrow> int \<Rightarrow> int list outcome" where
  "list_setitem arr i v = obind (list_index arr i) (\<lambda>k. Ok (arr[k := v]))"

text \<open>\<^verbatim>\<open>while i < size: arr[i] = 1; i += 1\<close>\<close>

function init_sieve :: "int list \<Rightarrow> int \<Rightarrow> int \<Rightarrow> int list outcome" where
  "init_sieve arr i sz =
     (if i < sz then
        (case list_setitem arr i 1 of
           Ok arr' \<Rightarrow> init_sieve arr' (i + 1) sz
         | Raise e \<Rightarrow> Raise e
         | Unmodelled \<Rightarrow> Unmodelled)
      else Ok arr)"
  by pat_completeness auto
termination
  by (relation "measure (\<lambda>(arr, i, sz). nat (sz - i))") auto

declare init_sieve.simps [simp del]

text \<open>
  \<^verbatim>\<open>while num < size: arr[num] = 0; num += factor\<close>. With \<open>factor \<le> 0\<close> the loop need
  not end, so the result is optional: \<open>None\<close> is a run that does not return.
\<close>

partial_function (option) clear_multiples ::
  "int list \<Rightarrow> int \<Rightarrow> int \<Rightarrow> int \<Rightarrow> int list outcome option" where
  "clear_multiples arr factor num sz =
     (if num < sz then
        (case list_setitem arr num 0 of
           Ok arr' \<Rightarrow> clear_multiples arr' factor (num + factor) sz
         | Raise e \<Rightarrow> Some (Raise e)
         | Unmodelled \<Rightarrow> Some Unmodelled)
      else Some (Ok arr))"

declare clear_multiples.simps [code]

text \<open>
  \<^verbatim>\<open>while i <= limit: if arr[i] == 1: return i; i += 1\<close>, and \<^verbatim>\<open>return 0\<close> after the loop.
\<close>

function find_next_prime :: "int list \<Rightarrow> int \<Rightarrow> int \<Rightarrow> int outcome" where
  "find_next_prime arr i limit =
     (if i \<le> limit then
        (case list_getitem arr i of
           Ok v \<Rightarrow> if v = 1 then Ok i else find_next_prime arr (i + 1) limit
         | Raise e \<Rightarrow> Raise e
         | Unmodelled \<Rightarrow> Unmodelled)
      else Ok 0)"
  by pat_completeness auto
termination
  by (relation "measure (\<lambda>(arr, i, limit). nat (limit + 1 - i))") auto

declare find_next_prime.simps [simp del]

text \<open>
  Newton's iteration on integers, \<^verbatim>\<open>while True\<close>. \<open>//\<close> is floor division, which is
  \<open>div\<close> on \<open>int\<close>; a zero guess raises \<open>ZeroDivisionError\<close>.
\<close>

partial_function (option) isqrt :: "int \<Rightarrow> int \<Rightarrow> int outcome option" where
  "isqrt n guess =
     (if guess = 0 then Some (Raise ZeroDivisionError)
      else (let next_guess = (guess + n div guess) div 2 in
            if next_guess \<ge> guess then Some (Ok guess)
            else isqrt n next_guess))"

declare isqrt.simps [code]

text \<open>
  \<open>count_primes\<close>: the loop over \<open>i\<close> with the counter \<open>count\<close>, started at
  \<open>count = 1\<close>, \<open>i = 0\<close>.
\<close>

function count_primes_loop :: "int list \<Rightarrow> int \<Rightarrow> int \<Rightarrow> int \<Rightarrow> int outcome" where
  "count_primes_loop arr sz count i =
     (if i < sz then
        (case list_getitem arr i of
           Ok v \<Rightarrow> count_primes_loop arr sz (if v = 1 then count + 1 else count) (i + 1)
         | Raise e \<Rightarrow> Raise e
         | Unmodelled \<Rightarrow> Unmodelled)
      else Ok count)"
  by pat_completeness auto
termination
  by (relation "measure (\<lambda>(arr, sz, count, i). nat (sz - i))") auto

declare count_primes_loop.simps [simp del]

definition count_primes :: "int list \<Rightarrow> int \<Rightarrow> int outcome" where
  "count_primes arr sz = count_primes_loop arr sz 1 0"

text \<open>
  The \<^verbatim>\<open>while factor <= q\<close> loop of \<open>run_sieve\<close>; \<^verbatim>\<open>break\<close> leaves it with the list as
  it is.
\<close>

partial_function (option) sieve_loop ::
  "int list \<Rightarrow> int \<Rightarrow> int \<Rightarrow> int \<Rightarrow> int list outcome option" where
  "sieve_loop arr factor q sz =
     (if factor \<le> q then
        (case find_next_prime arr (factor div 2) (q div 2) of
           Ok next_prime \<Rightarrow>
             if next_prime = 0 then Some (Ok arr)
             else (let actual_factor = next_prime * 2 + 1;
                       start = actual_factor * actual_factor div 2
                   in Option.bind (clear_multiples arr actual_factor start sz)
                        (\<lambda>r. case r of
                                Ok arr' \<Rightarrow> sieve_loop arr' (actual_factor + 2) q sz
                              | Raise e \<Rightarrow> Some (Raise e)
                              | Unmodelled \<Rightarrow> Some Unmodelled))
         | Raise e \<Rightarrow> Some (Raise e)
         | Unmodelled \<Rightarrow> Some Unmodelled)
      else Some (Ok arr))"

declare sieve_loop.simps [code]

definition run_sieve :: "int \<Rightarrow> int outcome option" where
  "run_sieve limit =
     (let sz = (limit + 1) div 2;
          arr = replicate (nat sz) 0
      in case init_sieve arr 0 sz of
           Ok arr1 \<Rightarrow>
             (case list_setitem arr1 0 0 of
                Ok arr2 \<Rightarrow>
                  Option.bind (isqrt limit (limit div 2))
                    (\<lambda>r. case r of
                            Ok q \<Rightarrow>
                              Option.bind (sieve_loop arr2 3 q sz)
                                (\<lambda>r'. case r' of
                                         Ok arr3 \<Rightarrow> Some (count_primes arr3 sz)
                                       | Raise e \<Rightarrow> Some (Raise e)
                                       | Unmodelled \<Rightarrow> Some Unmodelled)
                          | Raise e \<Rightarrow> Some (Raise e)
                          | Unmodelled \<Rightarrow> Some Unmodelled)
              | Raise e \<Rightarrow> Some (Raise e)
              | Unmodelled \<Rightarrow> Some Unmodelled)
         | Raise e \<Rightarrow> Some (Raise e)
         | Unmodelled \<Rightarrow> Some Unmodelled)"

subsection \<open>Prime numbers\<close>

definition is_prime :: "nat \<Rightarrow> bool" where
  "is_prime n = (1 < n \<and> (\<forall>d \<in> {2..<n}. \<not> d dvd n))"

definition primes_upto :: "int \<Rightarrow> nat list" where
  "primes_upto limit = filter is_prime [0..<nat (limit + 1)]"

section \<open>tooling/repro_lsp.py\<close>

subsection \<open>Bytes and text\<close>

definition CR :: char where "CR = CHR 0x0D"
definition LF :: char where "LF = CHR 0x0A"

definition byte :: "char \<Rightarrow> nat" where
  "byte c = of_char c"

fun utf8_valid :: "nat list \<Rightarrow> bool" where
  "utf8_valid [] = True"
| "utf8_valid (a # bs) =
     (if a < 0x80 then utf8_valid bs
      else if 0xC2 \<le> a \<and> a \<le> 0xDF then
        (case bs of
           b # r \<Rightarrow> 0x80 \<le> b \<and> b \<le> 0xBF \<and> utf8_valid r
         | _ \<Rightarrow> False)
      else if 0xE0 \<le> a \<and> a \<le> 0xEF then
        (case bs of
           b # c # r \<Rightarrow>
             (if a = 0xE0 then 0xA0 else 0x80) \<le> b \<and> b \<le> (if a = 0xED then 0x9F else 0xBF)
             \<and> 0x80 \<le> c \<and> c \<le> 0xBF \<and> utf8_valid r
         | _ \<Rightarrow> False)
      else if 0xF0 \<le> a \<and> a \<le> 0xF4 then
        (case bs of
           b # c # d # r \<Rightarrow>
             (if a = 0xF0 then 0x90 else 0x80) \<le> b \<and> b \<le> (if a = 0xF4 then 0x8F else 0xBF)
             \<and> 0x80 \<le> c \<and> c \<le> 0xBF \<and> 0x80 \<le> d \<and> d \<le> 0xBF \<and> utf8_valid r
         | _ \<Rightarrow> False)
      else False)"

definition decode_utf8 :: "string \<Rightarrow> string outcome" where
  "decode_utf8 bs = (if utf8_valid (map byte bs) then Ok bs else Raise UnicodeDecodeError)"

subsection \<open>The string operations of the read loop\<close>

fun startswith :: "string \<Rightarrow> string \<Rightarrow> bool" where
  "startswith s [] = True"
| "startswith [] (p # ps) = False"
| "startswith (c # s) (p # ps) = (c = p \<and> startswith s ps)"

fun str_split :: "char \<Rightarrow> string \<Rightarrow> string list" where
  "str_split sep [] = [[]]"
| "str_split sep (c # s) =
     (if c = sep then [] # str_split sep s
      else (case str_split sep s of p # ps \<Rightarrow> (c # p) # ps | [] \<Rightarrow> [[c]]))"

definition subscript :: "'a list \<Rightarrow> nat \<Rightarrow> 'a outcome" where
  "subscript xs i = (if i < length xs then Ok (xs ! i) else Raise IndexError)"

definition space1 :: "nat \<Rightarrow> bool" where
  "space1 a = ((9 \<le> a \<and> a \<le> 13) \<or> (28 \<le> a \<and> a \<le> 32))"

definition space2 :: "nat \<Rightarrow> nat \<Rightarrow> bool" where
  "space2 a b = (a = 0xC2 \<and> (b = 0x85 \<or> b = 0xA0))"

definition space3 :: "nat \<Rightarrow> nat \<Rightarrow> nat \<Rightarrow> bool" where
  "space3 a b c =
     ((a = 0xE1 \<and> b = 0x9A \<and> c = 0x80)
      \<or> (a = 0xE2 \<and> b = 0x80 \<and> ((0x80 \<le> c \<and> c \<le> 0x8A) \<or> c = 0xA8 \<or> c = 0xA9 \<or> c = 0xAF))
      \<or> (a = 0xE2 \<and> b = 0x81 \<and> c = 0x9F)
      \<or> (a = 0xE3 \<and> b = 0x80 \<and> c = 0x80))"

fun lstrip :: "string \<Rightarrow> string" where
  "lstrip (a # b # c # s) =
     (if space1 (byte a) then lstrip (b # c # s)
      else if space2 (byte a) (byte b) then lstrip (c # s)
      else if space3 (byte a) (byte b) (byte c) then lstrip s
      else a # b # c # s)"
| "lstrip [a, b] =
     (if space1 (byte a) then lstrip [b]
      else if space2 (byte a) (byte b) then []
      else [a, b])"
| "lstrip [a] = (if space1 (byte a) then [] else [a])"
| "lstrip [] = []"

fun rstrip_rev :: "string \<Rightarrow> string" where
  "rstrip_rev (c # b # a # s) =
     (if space1 (byte c) then rstrip_rev (b # a # s)
      else if space2 (byte b) (byte c) then rstrip_rev (a # s)
      else if space3 (byte a) (byte b) (byte c) then rstrip_rev s
      else c # b # a # s)"
| "rstrip_rev [b, a] =
     (if space1 (byte b) then rstrip_rev [a]
      else if space2 (byte a) (byte b) then []
      else [b, a])"
| "rstrip_rev [a] = (if space1 (byte a) then [] else [a])"
| "rstrip_rev [] = []"

definition strip :: "string \<Rightarrow> string" where
  "strip s = rev (rstrip_rev (rev (lstrip s)))"

definition is_digit :: "char \<Rightarrow> bool" where
  "is_digit c = (48 \<le> byte c \<and> byte c \<le> 57)"

definition digit_val :: "char \<Rightarrow> nat" where
  "digit_val c = byte c - 48"

fun parse_digits :: "nat \<Rightarrow> string \<Rightarrow> nat option" where
  "parse_digits acc [] = Some acc"
| "parse_digits acc (c # s) =
     (if is_digit c then parse_digits (10 * acc + digit_val c) s
      else if c = CHR ''_'' then
        (case s of
           d # s' \<Rightarrow> if is_digit d then parse_digits (10 * acc + digit_val d) s' else None
         | [] \<Rightarrow> None)
      else None)"

definition parse_decimal :: "string \<Rightarrow> nat option" where
  "parse_decimal s =
     (case s of
        [] \<Rightarrow> None
      | c # r \<Rightarrow> if is_digit c then parse_digits (digit_val c) r else None)"

definition py_int :: "string \<Rightarrow> int outcome" where
  "py_int s =
     (if \<exists>c \<in> set s. 128 \<le> byte c then Unmodelled
      else (case strip s of
              [] \<Rightarrow> Raise ValueError
            | c # r \<Rightarrow>
                (case parse_decimal (if c = CHR ''+'' \<or> c = CHR ''-'' then r else c # r) of
                   None \<Rightarrow> Raise ValueError
                 | Some n \<Rightarrow> Ok (if c = CHR ''-'' then - int n else int n))))"

fun str_nat :: "nat \<Rightarrow> string" where
  "str_nat n =
     (if n < 10 then [char_of (48 + n)]
      else str_nat (n div 10) @ [char_of (48 + n mod 10)])"

declare str_nat.simps [simp del]

subsection \<open>The child's output stream\<close>

fun readline :: "string \<Rightarrow> string \<times> string" where
  "readline [] = ([], [])"
| "readline (c # s) =
     (if c = LF then ([c], s)
      else (case readline s of (l, r) \<Rightarrow> (c # l, r)))"

definition stream_read :: "int \<Rightarrow> string \<Rightarrow> (string \<times> string) outcome" where
  "stream_read n s =
     (if n = - 1 then Ok (s, [])
      else if n < - 1 then Raise ValueError
      else if 2 ^ 31 \<le> n then Unmodelled
      else Ok (take (nat n) s, drop (nat n) s))"


subsection \<open>Decoded payloads\<close>

fun is_substring :: "string \<Rightarrow> string \<Rightarrow> bool" where
  "is_substring k [] = (k = [])"
| "is_substring k (c # s) = (startswith (c # s) k \<or> is_substring k s)"

fun contains :: "json \<Rightarrow> string \<Rightarrow> bool outcome" where
  "contains (JObj kvs) k = Ok (k \<in> set (map fst kvs))"
| "contains (JArr xs) k = Ok (JStr k \<in> set xs)"
| "contains (JStr s) k = Ok (is_substring k s)"
| "contains (JInt i) k = Raise TypeError"
| "contains (JBool b) k = Raise TypeError"
| "contains JNull k = Raise TypeError"

fun getitem :: "json \<Rightarrow> string \<Rightarrow> json outcome" where
  "getitem (JObj kvs) k = (case map_of kvs k of Some v \<Rightarrow> Ok v | None \<Rightarrow> Raise KeyError)"
| "getitem (JArr xs) k = Raise TypeError"
| "getitem (JStr s) k = Raise TypeError"
| "getitem (JInt i) k = Raise TypeError"
| "getitem (JBool b) k = Raise TypeError"
| "getitem JNull k = Raise TypeError"

fun dict_get :: "json \<Rightarrow> string \<Rightarrow> json outcome" where
  "dict_get (JObj kvs) k = Ok (case map_of kvs k of Some v \<Rightarrow> v | None \<Rightarrow> JNull)"
| "dict_get (JArr xs) k = Raise AttributeError"
| "dict_get (JStr s) k = Raise AttributeError"
| "dict_get (JInt i) k = Raise AttributeError"
| "dict_get (JBool b) k = Raise AttributeError"
| "dict_get JNull k = Raise AttributeError"

datatype event =
    Print_starting
  | Popen
  | Thread_start
  | Stdin_write string
  | Stdin_flush
  | Print_sent json
  | Print_text string
  | Print_error json
  | Print_notif json
  | Print_resp json
  | Print_exc py_exc
  | Print_stream string string
  | Print_reader_error string py_exc
  | Terminate
  | Sigterm

type_synonym 'a io = "event list \<times> 'a outcome"

definition classify :: "json \<Rightarrow> event outcome" where
  "classify msg =
     obind (contains msg ''error'') (\<lambda>has_error.
       if has_error then Ok (Print_error msg)
       else obind (contains msg ''method'') (\<lambda>has_method.
         if has_method then obind (getitem msg ''method'') (\<lambda>m. Ok (Print_notif m))
         else obind (dict_get msg ''id'') (\<lambda>i. Ok (Print_resp i))))"

definition read_frame ::
  "(string \<Rightarrow> json outcome) \<Rightarrow> string \<Rightarrow> string \<Rightarrow> (json \<times> string) outcome" where
  "read_frame loads line s =
     obind (subscript (str_split (CHR '':'') line) 1) (\<lambda>field.
     obind (py_int (strip field)) (\<lambda>cl.
     obind (stream_read cl (snd (readline s))) (\<lambda>(body, s').
     obind (decode_utf8 body) (\<lambda>text.
     obind (loads text) (\<lambda>msg. Ok (msg, s'))))))"

lemma readline_length: "length (snd (readline s)) \<le> length s"
  by (induction s) (auto split: prod.splits)

lemma readline_shorter: "readline s = (l, r) \<Longrightarrow> l \<noteq> [] \<Longrightarrow> length r < length s"
  using readline_length [of "tl s"] by (cases s) (auto split: if_splits prod.splits)

lemma read_frame_shorter:
  "read_frame loads line s = Ok (msg, s') \<Longrightarrow> length s' \<le> length s"
  using readline_length [of s]
  by (auto simp: read_frame_def obind_def stream_read_def
      split: outcome.splits if_splits prod.splits)

lemma read_loop_skip_shorter:
  "(l, r) = readline s \<Longrightarrow> l \<noteq> [] \<Longrightarrow> length r < length s"
  by (rule readline_shorter [OF sym])

lemma read_loop_frame_shorter:
  "(l, r) = readline s \<Longrightarrow> l \<noteq> [] \<Longrightarrow> read_frame loads t r = Ok (msg, s')
    \<Longrightarrow> length s' < length s"
  using readline_shorter [of s l r] read_frame_shorter [of loads t r msg s'] by simp

function read_loop :: "(string \<Rightarrow> json outcome) \<Rightarrow> string \<Rightarrow> unit io" where
  "read_loop loads s =
     (case readline s of
        (line, s1) \<Rightarrow>
          if line = [] then ([], Ok ())
          else (case decode_utf8 line of
                  Raise e \<Rightarrow> ([], Raise e)
                | Unmodelled \<Rightarrow> ([], Unmodelled)
                | Ok text \<Rightarrow>
                    if startswith text ''Content-Length:'' then
                      (case read_frame loads text s1 of
                         Raise e \<Rightarrow> ([], Raise e)
                       | Unmodelled \<Rightarrow> ([], Unmodelled)
                       | Ok (msg, s2) \<Rightarrow>
                           (case classify msg of
                              Raise e \<Rightarrow> ([], Raise e)
                            | Unmodelled \<Rightarrow> ([], Unmodelled)
                            | Ok ev \<Rightarrow>
                                (case read_loop loads s2 of (evs, r) \<Rightarrow> (ev # evs, r))))
                    else read_loop loads s1))"
  by pat_completeness auto
termination
  apply (relation "measure (\<lambda>(loads, s). length s)")
    apply simp
   apply (auto intro: read_loop_skip_shorter read_loop_frame_shorter)
  done

declare read_loop.simps [simp del]

subsection \<open>The child process\<close>

text \<open>
  \<open>process\<close> is a \<open>subprocess.Popen\<close> object. The script calls one method of it,
  \<open>terminate\<close> (line 114), which is code of CPython's \<^verbatim>\<open>Lib/subprocess.py\<close> (POSIX part)
  and is embedded here from there, as far as \<open>terminate\<close> reaches:

  \<^verbatim>\<open>def terminate(self): self.send_signal(signal.SIGTERM)\<close>

  \<^verbatim>\<open>def send_signal(self, sig):\<close>
  \<^verbatim>\<open>    self.poll()\<close>
  \<^verbatim>\<open>    if self.returncode is not None: return\<close>
  \<^verbatim>\<open>    try: os.kill(self.pid, sig)\<close>
  \<^verbatim>\<open>    except ProcessLookupError: pass\<close>

  \<open>poll\<close> is \<open>_internal_poll\<close>: when \<open>returncode\<close> is still \<open>None\<close> it calls
  \<open>waitpid(pid, WNOHANG)\<close>, stores the exit status of a child that has exited, and stores
  0 when \<open>waitpid\<close> fails with \<open>ECHILD\<close> (the child was reaped by someone else).

  The state of the child in the operating system is \<open>Running\<close>, \<open>Zombie rc\<close> (exited with
  return code \<open>rc\<close>, not waited for yet) or \<open>Reaped\<close> (its process id is gone). The
  \<open>Popen\<close> object is its cached \<open>returncode\<close> together with that state. The lock of
  \<open>_internal_poll\<close> against a concurrent \<open>wait\<close> (no other thread of the script touches
  \<open>process\<close>) and the reuse of a process id by an unrelated process are outside the model.
\<close>

datatype child_state = Running | Zombie int | Reaped

record process =
  returncode :: "int option"
  child :: child_state

definition waitpid_nohang :: "child_state \<Rightarrow> (int option \<times> child_state) outcome" where
  "waitpid_nohang c =
     (case c of
        Running \<Rightarrow> Ok (None, Running)
      | Zombie rc \<Rightarrow> Ok (Some rc, Reaped)
      | Reaped \<Rightarrow> Raise ChildProcessError)"

definition os_kill :: "child_state \<Rightarrow> unit outcome" where
  "os_kill c =
     (case c of
        Running \<Rightarrow> Ok ()
      | Zombie rc \<Rightarrow> Ok ()
      | Reaped \<Rightarrow> Raise ProcessLookupError)"

definition poll :: "process \<Rightarrow> process" where
  "poll p =
     (if returncode p = None then
        (case waitpid_nohang (child p) of
           Ok (Some rc, c) \<Rightarrow> p\<lparr>returncode := Some rc, child := c\<rparr>
         | Ok (None, c) \<Rightarrow> p\<lparr>child := c\<rparr>
         | Raise e \<Rightarrow> if e = ChildProcessError then p\<lparr>returncode := Some 0\<rparr> else p
         | Unmodelled \<Rightarrow> p)
      else p)"

definition send_signal :: "process \<Rightarrow> process io" where
  "send_signal p =
     (let p' = poll p in
      if returncode p' \<noteq> None then ([], Ok p')
      else (case os_kill (child p') of
              Ok u \<Rightarrow> ([Sigterm], Ok p')
            | Raise e \<Rightarrow> if e = ProcessLookupError then ([], Ok p') else ([], Raise e)
            | Unmodelled \<Rightarrow> ([], Unmodelled)))"

definition terminate :: "process \<Rightarrow> process io" where
  "terminate p = (case send_signal p of (evs, r) \<Rightarrow> (Terminate # evs, r))"

subsection \<open>The scenario\<close>

text \<open>
  \<open>run\<close> (lines 17 to 114) talks to things outside the script. They are collected in
  one record, the environment of a run:
  \<^item> \<open>json_dumps\<close>, \<open>json_loads\<close>: the two functions of the \<open>json\<close> module;
  \<^item> \<open>popen_error\<close>: the exception of \<open>subprocess.Popen\<close> (lines 22 to 27), if it raises;
  \<^item> \<open>thread_error\<close>: the exception of creating and starting the reader thread
    (lines 30 to 32), if that raises;
  \<^item> \<open>stdin_error k\<close>: the exception of the \<open>k\<close>-th operation on the child's input, if it
    raises; \<open>send\<close> number \<open>n\<close> (from 0) does the operations \<open>3n\<close> (write of the header),
    \<open>3n + 1\<close> (write of the body) and \<open>3n + 2\<close> (flush);
  \<^item> \<open>source_text\<close>: the text of \<^verbatim>\<open>mml/samples/astar.mml\<close>, or the exception of opening or
    reading it (lines 48 and 49);
  \<^item> \<open>child_stdout\<close>: the bytes that the child writes to its output before closing it;
  \<^item> \<open>child_at_exit\<close>: the state of the child when the \<open>finally\<close> clause is reached.

  A run is the list of its events, in order, with its result: \<open>Ok\<close>, the exception that
  leaves \<open>run\<close>, or \<open>Unmodelled\<close>. The \<open>print\<close> calls are events and are taken not to
  fail.
\<close>

record env =
  json_dumps :: "json \<Rightarrow> string outcome"
  json_loads :: "string \<Rightarrow> json outcome"
  popen_error :: "py_exc option"
  thread_error :: "py_exc option"
  stdin_error :: "nat \<Rightarrow> py_exc option"
  source_text :: "py_exc + string"
  child_stdout :: string
  child_at_exit :: child_state

definition seq :: "'a io \<Rightarrow> ('a \<Rightarrow> 'b io) \<Rightarrow> 'b io" where
  "seq a f =
     (case a of
        (evs, Ok v) \<Rightarrow> (case f v of (evs', r) \<Rightarrow> (evs @ evs', r))
      | (evs, Raise e) \<Rightarrow> (evs, Raise e)
      | (evs, Unmodelled) \<Rightarrow> (evs, Unmodelled))"

definition emit :: "event \<Rightarrow> unit io" where
  "emit ev = ([ev], Ok ())"

definition lift :: "'a outcome \<Rightarrow> 'a io" where
  "lift r = ([], r)"

definition stdin_op :: "env \<Rightarrow> nat \<Rightarrow> event \<Rightarrow> unit io" where
  "stdin_op env k ev = (case stdin_error env k of Some e \<Rightarrow> ([], Raise e) | None \<Rightarrow> ([ev], Ok ()))"

definition header :: "nat \<Rightarrow> string" where
  "header l =
     ''Content-Type: application/vscode-jsonrpc; charset=utf-8'' @ [CR, LF]
     @ ''Content-Length: '' @ str_nat l @ [CR, LF, CR, LF]"

definition send :: "env \<Rightarrow> nat \<Rightarrow> json \<Rightarrow> unit io" where
  "send env n msg =
     seq (lift (json_dumps env msg)) (\<lambda>content.
     seq (stdin_op env (3 * n) (Stdin_write (header (length content)))) (\<lambda>_.
     seq (stdin_op env (3 * n + 1) (Stdin_write content)) (\<lambda>_.
     seq (stdin_op env (3 * n + 2) Stdin_flush) (\<lambda>_.
     seq (lift (dict_get msg ''method'')) (\<lambda>m.
     emit (Print_sent m))))))"

definition initialize_msg :: json where
  "initialize_msg =
     JObj [(''jsonrpc'', JStr ''2.0''), (''method'', JStr ''initialize''),
           (''params'', JObj []), (''id'', JInt 1)]"

definition initialized_msg :: json where
  "initialized_msg =
     JObj [(''jsonrpc'', JStr ''2.0''), (''method'', JStr ''initialized''),
           (''params'', JObj [])]"

definition did_open_msg :: "string \<Rightarrow> json" where
  "did_open_msg txt =
     JObj [(''jsonrpc'', JStr ''2.0''), (''method'', JStr ''textDocument/didOpen''),
           (''params'', JObj [(''textDocument'',
              JObj [(''uri'', JStr ''file:///tmp/astar.mml''), (''languageId'', JStr ''mml''),
                    (''version'', JInt 1), (''text'', JStr txt)])])]"

definition semantic_tokens_msg :: json where
  "semantic_tokens_msg =
     JObj [(''jsonrpc'', JStr ''2.0''), (''method'', JStr ''textDocument/semanticTokens/full''),
           (''params'', JObj [(''textDocument'', JObj [(''uri'', JStr ''file:///tmp/astar.mml'')])]),
           (''id'', JInt 2)]"

definition document_symbol_msg :: json where
  "document_symbol_msg =
     JObj [(''jsonrpc'', JStr ''2.0''), (''method'', JStr ''textDocument/documentSymbol''),
           (''params'', JObj [(''textDocument'', JObj [(''uri'', JStr ''file:///tmp/astar.mml'')])]),
           (''id'', JInt 3)]"

definition definition_msg :: json where
  "definition_msg =
     JObj [(''jsonrpc'', JStr ''2.0''), (''method'', JStr ''textDocument/definition''),
           (''params'', JObj [(''textDocument'', JObj [(''uri'', JStr ''file:///tmp/astar.mml'')]),
                              (''position'', JObj [(''line'', JInt 130), (''character'', JInt 6)])]),
           (''id'', JInt 4)]"

definition open_read :: "env \<Rightarrow> string io" where
  "open_read env = (case source_text env of Inl e \<Rightarrow> ([], Raise e) | Inr txt \<Rightarrow> ([], Ok txt))"

definition try_body :: "env \<Rightarrow> unit io" where
  "try_body env =
     seq (send env 0 initialize_msg) (\<lambda>_.
     seq (send env 1 initialized_msg) (\<lambda>_.
     seq (open_read env) (\<lambda>txt.
     seq (send env 2 (did_open_msg txt)) (\<lambda>_.
     seq (send env 3 semantic_tokens_msg) (\<lambda>_.
     seq (send env 4 document_symbol_msg) (\<lambda>_.
     seq (emit (Print_text ''Sent documentSymbol'')) (\<lambda>_.
     seq (send env 5 definition_msg) (\<lambda>_.
     seq (emit (Print_text ''Sent definition'')) (\<lambda>_.
     read_loop (json_loads env) (child_stdout env))))))))))"

text \<open>
  The \<open>Popen\<close> object when the \<open>finally\<close> clause is reached: nothing before line 114
  calls \<open>poll\<close> or \<open>wait\<close>, so \<open>returncode\<close> is still \<open>None\<close>; what the child has
  done by then is the environment's.
\<close>

definition spawned :: "env \<Rightarrow> process" where
  "spawned env = \<lparr>returncode = None, child = child_at_exit env\<rparr>"

definition try_except :: "env \<Rightarrow> unit io" where
  "try_except env =
     (case try_body env of
        (evs, Raise e) \<Rightarrow> (evs @ [Print_exc e], Ok ())
      | (evs, res) \<Rightarrow> (evs, res))"

text \<open>
  \<open>finally: process.terminate()\<close> (lines 113 and 114) runs after the \<open>try\<close> and its
  \<open>except\<close>, whatever their result; an exception of \<open>terminate\<close> itself would replace
  that result.
\<close>

definition try_finally :: "env \<Rightarrow> unit io" where
  "try_finally env =
     (case try_except env of
        (evs, res) \<Rightarrow>
          (case terminate (spawned env) of
             (evs', Ok p) \<Rightarrow> (evs @ evs', res)
           | (evs', Raise e) \<Rightarrow> (evs @ evs', Raise e)
           | (evs', Unmodelled) \<Rightarrow> (evs @ evs', Unmodelled)))"

text \<open>
  \<open>run\<close>: the start line, \<open>Popen\<close>, the reader thread, and only then the \<open>try\<close>
  statement of line 44. An exception of \<open>Popen\<close> or of the start of the thread leaves
  \<open>run\<close> before the \<open>try\<close> is entered, so neither \<open>except\<close> nor \<open>finally\<close> runs
  for it.
\<close>

definition run :: "env \<Rightarrow> unit io" where
  "run env =
     seq (emit Print_starting) (\<lambda>_.
     (case popen_error env of
        Some e \<Rightarrow> ([], Raise e)
      | None \<Rightarrow>
          seq (emit Popen) (\<lambda>_.
          (case thread_error env of
             Some e \<Rightarrow> ([], Raise e)
           | None \<Rightarrow>
               seq (emit Thread_start) (\<lambda>_.
               try_finally env)))))"

subsection \<open>The stderr reader thread\<close>

fun reader_loop :: "(py_exc + string) list \<Rightarrow> string \<Rightarrow> unit io" where
  "reader_loop [] name = ([], Ok ())"
| "reader_loop (r # rs) name =
     (case r of
        Inl e \<Rightarrow> ([], Raise e)
      | Inr line \<Rightarrow>
          if line = [] then ([], Ok ())
          else (case decode_utf8 line of
                  Raise e \<Rightarrow> ([], Raise e)
                | Unmodelled \<Rightarrow> ([], Unmodelled)
                | Ok t \<Rightarrow>
                    (case reader_loop rs name of
                       (evs, res) \<Rightarrow> (Print_stream name (strip t) # evs, res))))"

definition reader :: "(py_exc + string) list \<Rightarrow> string \<Rightarrow> unit io" where
  "reader pipe name =
     (case reader_loop pipe name of
        (evs, Raise e) \<Rightarrow> (evs @ [Print_reader_error name e], Ok ())
      | (evs, res) \<Rightarrow> (evs, res))"

subsection \<open>A fragment of the json module\<close>

definition append_ok :: "string outcome \<Rightarrow> string outcome \<Rightarrow> string outcome" where
  "append_ok a b = obind a (\<lambda>x. obind b (\<lambda>y. Ok (x @ y)))"

definition hex_digit :: "nat \<Rightarrow> char" where
  "hex_digit k = ''0123456789abcdef'' ! k"

definition escape_char :: "char \<Rightarrow> string outcome" where
  "escape_char c =
     (let b = byte c in
      if 128 \<le> b then Unmodelled
      else if b = 0x22 then Ok [CHR 0x5C, CHR 0x22]
      else if b = 0x5C then Ok [CHR 0x5C, CHR 0x5C]
      else if b = 0x0A then Ok [CHR 0x5C, CHR ''n'']
      else if b = 0x0D then Ok [CHR 0x5C, CHR ''r'']
      else if b = 0x09 then Ok [CHR 0x5C, CHR ''t'']
      else if b = 0x08 then Ok [CHR 0x5C, CHR ''b'']
      else if b = 0x0C then Ok [CHR 0x5C, CHR ''f'']
      else if b < 0x20 \<or> b = 0x7F then
        Ok ([CHR 0x5C, CHR ''u'', CHR ''0'', CHR ''0'', hex_digit (b div 16), hex_digit (b mod 16)])
      else Ok [c])"

fun escape_chars :: "string \<Rightarrow> string outcome" where
  "escape_chars [] = Ok []"
| "escape_chars (c # s) = append_ok (escape_char c) (escape_chars s)"

definition dumps_str :: "string \<Rightarrow> string outcome" where
  "dumps_str s = append_ok (Ok [CHR 0x22]) (append_ok (escape_chars s) (Ok [CHR 0x22]))"

fun py_json_dumps :: "json \<Rightarrow> string outcome"
  and dumps_items :: "json list \<Rightarrow> string outcome"
  and dumps_pairs :: "(string \<times> json) list \<Rightarrow> string outcome" where
  "py_json_dumps JNull = Ok ''null''"
| "py_json_dumps (JBool b) = Ok (if b then ''true'' else ''false'')"
| "py_json_dumps (JInt i) = Ok (if i < 0 then ''-'' @ str_nat (nat (- i)) else str_nat (nat i))"
| "py_json_dumps (JStr s) = dumps_str s"
| "py_json_dumps (JArr xs) = append_ok (Ok ''['') (append_ok (dumps_items xs) (Ok '']''))"
| "py_json_dumps (JObj kvs) = append_ok (Ok ''{'') (append_ok (dumps_pairs kvs) (Ok ''}''))"
| "dumps_items [] = Ok []"
| "dumps_items [x] = py_json_dumps x"
| "dumps_items (x # y # xs) =
     append_ok (py_json_dumps x) (append_ok (Ok '', '') (dumps_items (y # xs)))"
| "dumps_pairs [] = Ok []"
| "dumps_pairs [(k, v)] = append_ok (dumps_str k) (append_ok (Ok '': '') (py_json_dumps v))"
| "dumps_pairs ((k, v) # p # ps) =
     append_ok (dumps_str k) (append_ok (Ok '': '') (append_ok (py_json_dumps v)
       (append_ok (Ok '', '') (dumps_pairs (p # ps)))))"

definition json_space :: "char \<Rightarrow> bool" where
  "json_space c = (c = CHR '' '' \<or> c = CHR 0x09 \<or> c = LF \<or> c = CR)"

definition skip_ws :: "string \<Rightarrow> string" where
  "skip_ws s = dropWhile json_space s"

definition unescape :: "char \<Rightarrow> char option" where
  "unescape e =
     (if e = CHR 0x22 \<or> e = CHR 0x5C \<or> e = CHR ''/'' then Some e
      else if e = CHR ''b'' then Some (CHR 0x08)
      else if e = CHR ''f'' then Some (CHR 0x0C)
      else if e = CHR ''n'' then Some LF
      else if e = CHR ''r'' then Some CR
      else if e = CHR ''t'' then Some (CHR 0x09)
      else None)"

fun scan_string :: "string \<Rightarrow> (string \<times> string) outcome" where
  "scan_string [] = Raise JSONDecodeError"
| "scan_string (c # s) =
     (if c = CHR 0x22 then Ok ([], s)
      else if byte c < 32 then Raise JSONDecodeError
      else if c = CHR 0x5C then
        (case s of
           [] \<Rightarrow> Raise JSONDecodeError
         | e # s' \<Rightarrow>
             if e = CHR ''u'' then Unmodelled
             else (case unescape e of
                     None \<Rightarrow> Raise JSONDecodeError
                   | Some d \<Rightarrow> obind (scan_string s') (\<lambda>(t, r). Ok (d # t, r))))
      else obind (scan_string s) (\<lambda>(t, r). Ok (c # t, r)))"

definition float_tail :: "string \<Rightarrow> bool" where
  "float_tail s =
     (case s of
        c # d # r \<Rightarrow>
          (c = CHR ''.'' \<and> is_digit d)
          \<or> ((c = CHR ''e'' \<or> c = CHR ''E'')
              \<and> (is_digit d
                  \<or> ((d = CHR ''+'' \<or> d = CHR ''-'') \<and> (case r of x # _ \<Rightarrow> is_digit x | [] \<Rightarrow> False))))
      | _ \<Rightarrow> False)"

definition scan_number :: "string \<Rightarrow> (json \<times> string) outcome" where
  "scan_number s =
     (let neg = startswith s ''-'';
          r = (if neg then tl s else s)
      in case r of
           [] \<Rightarrow> Raise JSONDecodeError
         | d # r' \<Rightarrow>
             if \<not> is_digit d then
               (if startswith s ''NaN'' \<or> startswith s ''Infinity'' \<or> startswith s ''-Infinity''
                then Unmodelled else Raise JSONDecodeError)
             else
               (let ds = (if d = CHR ''0'' then [d] else takeWhile is_digit r);
                    rest = drop (length ds) r;
                    n = int (foldl (\<lambda>a c. 10 * a + digit_val c) 0 ds)
                in if float_tail rest then Unmodelled
                   else Ok (JInt (if neg then - n else n), rest)))"

definition dict_put :: "(string \<times> json) list \<Rightarrow> string \<Rightarrow> json \<Rightarrow> (string \<times> json) list" where
  "dict_put kvs k v =
     (if k \<in> set (map fst kvs) then map (\<lambda>(k', v'). if k' = k then (k', v) else (k', v')) kvs
      else kvs @ [(k, v)])"

fun scan_once :: "nat \<Rightarrow> string \<Rightarrow> (json \<times> string) outcome"
  and scan_array :: "nat \<Rightarrow> json list \<Rightarrow> string \<Rightarrow> (json \<times> string) outcome"
  and scan_object :: "nat \<Rightarrow> (string \<times> json) list \<Rightarrow> string \<Rightarrow> (json \<times> string) outcome" where
  "scan_once 0 s = Unmodelled"
| "scan_once (Suc n) s =
     (case s of
        [] \<Rightarrow> Raise JSONDecodeError
      | c # r \<Rightarrow>
          if c = CHR 0x22 then obind (scan_string r) (\<lambda>(t, r'). Ok (JStr t, r'))
          else if c = CHR ''{'' then
            (case skip_ws r of
               [] \<Rightarrow> Raise JSONDecodeError
             | q # r' \<Rightarrow>
                 if q = CHR ''}'' then Ok (JObj [], r')
                 else scan_object n [] (q # r'))
          else if c = CHR ''['' then
            (case skip_ws r of
               [] \<Rightarrow> Raise JSONDecodeError
             | q # r' \<Rightarrow>
                 if q = CHR '']'' then Ok (JArr [], r')
                 else scan_array n [] (q # r'))
          else if startswith s ''null'' then Ok (JNull, drop 4 s)
          else if startswith s ''true'' then Ok (JBool True, drop 4 s)
          else if startswith s ''false'' then Ok (JBool False, drop 5 s)
          else scan_number s)"
| "scan_array 0 acc s = Unmodelled"
| "scan_array (Suc n) acc s =
     (case scan_once n s of
        Raise e \<Rightarrow> Raise e
      | Unmodelled \<Rightarrow> Unmodelled
      | Ok (v, r) \<Rightarrow>
          (case skip_ws r of
             [] \<Rightarrow> Raise JSONDecodeError
           | q # r' \<Rightarrow>
               if q = CHR '']'' then Ok (JArr (acc @ [v]), r')
               else if q = CHR '','' then scan_array n (acc @ [v]) (skip_ws r')
               else Raise JSONDecodeError))"
| "scan_object 0 acc s = Unmodelled"
| "scan_object (Suc n) acc s =
     (case s of
        [] \<Rightarrow> Raise JSONDecodeError
      | q # r \<Rightarrow>
          if q \<noteq> CHR 0x22 then Raise JSONDecodeError
          else (case scan_string r of
                  Raise e \<Rightarrow> Raise e
                | Unmodelled \<Rightarrow> Unmodelled
                | Ok (k, r1) \<Rightarrow>
                    (case skip_ws r1 of
                       [] \<Rightarrow> Raise JSONDecodeError
                     | c # r2 \<Rightarrow>
                         if c \<noteq> CHR '':'' then Raise JSONDecodeError
                         else (case scan_once n (skip_ws r2) of
                                 Raise e \<Rightarrow> Raise e
                               | Unmodelled \<Rightarrow> Unmodelled
                               | Ok (v, r3) \<Rightarrow>
                                   (case skip_ws r3 of
                                      [] \<Rightarrow> Raise JSONDecodeError
                                    | d # r4 \<Rightarrow>
                                        if d = CHR ''}'' then Ok (JObj (dict_put acc k v), r4)
                                        else if d = CHR '','' then
                                          scan_object n (dict_put acc k v) (skip_ws r4)
                                        else Raise JSONDecodeError)))))"

definition py_json_loads :: "string \<Rightarrow> json outcome" where
  "py_json_loads s =
     obind (scan_once (Suc (length s)) (skip_ws s)) (\<lambda>(v, r).
       if skip_ws r = [] then Ok v else Raise JSONDecodeError)"

subsection \<open>Example environments\<close>

text \<open>
  A child that answers one response and closes its output; every write succeeds.
\<close>

definition quiet_env :: env where
  "quiet_env =
     \<lparr>json_dumps = py_json_dumps, json_loads = py_json_loads, popen_error = None, thread_error = None,
      stdin_error = (\<lambda>k. None), source_text = Inr ''fn main() = 1;'',
      child_stdout = ''Content-Length: 9'' @ [CR, LF, CR, LF] @ ''{\"id\": 1}'',
      child_at_exit = Running\<rparr>"

text \<open>
  A child that has already exited: the flush of the first message raises (the pipe is broken).
\<close>

definition broken_pipe_env :: env where
  "broken_pipe_env =
     \<lparr>json_dumps = py_json_dumps, json_loads = py_json_loads, popen_error = None, thread_error = None,
      stdin_error = (\<lambda>k. if k = 2 then Some OSError else None),
      source_text = Inr ''fn main() = 1;'', child_stdout = [],
      child_at_exit = Zombie 1\<rparr>"

subsection \<open>The script, as a list\<close>

text \<open>
  The six payloads of lines 45 to 91, in the order in which \<open>run\<close> passes them to
  \<open>send\<close>; what one successful \<open>send\<close> does; and what it writes to the child.
\<close>

definition script :: "string \<Rightarrow> json list" where
  "script txt =
     [initialize_msg, initialized_msg, did_open_msg txt,
      semantic_tokens_msg, document_symbol_msg, definition_msg]"

definition content :: "env \<Rightarrow> json \<Rightarrow> string" where
  "content env msg = (case json_dumps env msg of Ok c \<Rightarrow> c | Raise e \<Rightarrow> [] | Unmodelled \<Rightarrow> [])"

definition dumps_ok :: "env \<Rightarrow> json \<Rightarrow> bool" where
  "dumps_ok env msg = (json_dumps env msg = Ok (content env msg))"

definition frame :: "env \<Rightarrow> json \<Rightarrow> string list" where
  "frame env msg = [header (length (content env msg)), content env msg]"

definition sent_events :: "env \<Rightarrow> json \<Rightarrow> event list" where
  "sent_events env msg =
     map Stdin_write (frame env msg)
     @ [Stdin_flush, Print_sent (case dict_get msg ''method'' of Ok m \<Rightarrow> m | Raise e \<Rightarrow> JNull | Unmodelled \<Rightarrow> JNull)]"

fun stdin_writes :: "event list \<Rightarrow> string list" where
  "stdin_writes [] = []"
| "stdin_writes (Stdin_write b # evs) = b # stdin_writes evs"
| "stdin_writes (ev # evs) = stdin_writes evs"

text \<open>
  The identifier that a payload carries: the value under its key \<open>id\<close>, whatever that
  value is, and \<open>None\<close> exactly when the payload has no such key. (The keys of a dict
  are distinct, so the first binding is the only one.)
\<close>

definition request_id :: "json \<Rightarrow> json option" where
  "request_id msg = (case msg of JObj kvs \<Rightarrow> map_of kvs ''id'' | _ \<Rightarrow> None)"

section \<open>Properties of factorial\<close>

lemma factorial_le_one: "n \<le> 1 \<Longrightarrow> factorial n = 1"
  by (subst factorial.simps) simp

lemma factorial_nat: "factorial (int k) = int (fact k)"
proof (induction k)
  case 0
  show ?case by (simp add: factorial_le_one)
next
  case (Suc k)
  show ?case
  proof (cases "k = 0")
    case True
    then show ?thesis by (simp add: factorial_le_one)
  next
    case False
    have "factorial (int (Suc k)) = int (Suc k) * factorial (int (Suc k) - 1)"
      using False by (subst factorial.simps) simp
    also have "int (Suc k) - 1 = int k" by simp
    finally show ?thesis using Suc.IH by (simp add: algebra_simps)
  qed
qed

text \<open>
  C9. For every integer \<open>n \<ge> 0\<close>, \<open>factorial n\<close> is \<open>n!\<close> (in particular
  \<open>factorial 0 = 1\<close>), and for every integer \<open>n \<le> 1\<close>, negative ones included,
  \<open>factorial n\<close> is 1.
\<close>

theorem factorial_spec:
  "(0 \<le> n \<longrightarrow> factorial n = int (fact (nat n))) \<and> (n \<le> 1 \<longrightarrow> factorial n = 1)"
proof (intro conjI impI)
  assume "0 \<le> n"
  then have "factorial n = factorial (int (nat n))" by simp
  then show "factorial n = int (fact (nat n))" by (simp only: factorial_nat)
next
  assume "n \<le> 1"
  then show "factorial n = 1" by (rule factorial_le_one)
qed

theorem factorial_spec_witness:
  "factorial 5 = 120 \<and> factorial 0 = 1 \<and> factorial (- 3) = 1"
proof -
  have "(fact 5 :: nat) = 120" by (simp add: fact_numeral)
  then show ?thesis
    using factorial_spec [of 5] factorial_spec [of 0] factorial_spec [of "- 3"] by simp
qed

section \<open>Classification of incoming payloads\<close>

lemma classify_obj_method:
  "map_of kvs ''method'' = Some m \<Longrightarrow> ''method'' \<in> set (map fst kvs) \<Longrightarrow> classify (JObj kvs) =
     Ok (if ''error'' \<in> set (map fst kvs) then Print_error (JObj kvs)
         else (case map_of kvs ''method'' of
                 Some m \<Rightarrow> Print_notif m
               | None \<Rightarrow> Print_resp (case map_of kvs ''id'' of Some i \<Rightarrow> i | None \<Rightarrow> JNull)))"
  by (simp add: classify_def obind_def)

lemma classify_obj_no_method:
  "map_of kvs ''method'' = None \<Longrightarrow> ''method'' \<notin> set (map fst kvs) \<Longrightarrow> classify (JObj kvs) =
     Ok (if ''error'' \<in> set (map fst kvs) then Print_error (JObj kvs)
         else (case map_of kvs ''method'' of
                 Some m \<Rightarrow> Print_notif m
               | None \<Rightarrow> Print_resp (case map_of kvs ''id'' of Some i \<Rightarrow> i | None \<Rightarrow> JNull)))"
  by (simp add: classify_def obind_def)

lemma map_of_fst: "(map_of kvs k = None) = (k \<notin> set (map fst kvs))"
  by (induction kvs) auto

lemma classify_obj:
  "classify (JObj kvs) =
     Ok (if ''error'' \<in> set (map fst kvs) then Print_error (JObj kvs)
         else (case map_of kvs ''method'' of
                 Some m \<Rightarrow> Print_notif m
               | None \<Rightarrow> Print_resp (case map_of kvs ''id'' of Some i \<Rightarrow> i | None \<Rightarrow> JNull)))"
proof (cases "map_of kvs ''method''")
  case None
  moreover from None have "''method'' \<notin> set (map fst kvs)"
    using map_of_fst [of kvs "''method''"] by blast
  ultimately show ?thesis by (rule classify_obj_no_method)
next
  case (Some m)
  moreover from Some have "''method'' \<in> set (map fst kvs)"
    using map_of_fst [of kvs "''method''"] by fastforce
  ultimately show ?thesis by (rule classify_obj_method)
qed

lemma classify_arr:
  "classify (JArr xs) =
     (if JStr ''error'' \<in> set xs then Ok (Print_error (JArr xs))
      else if JStr ''method'' \<in> set xs then Raise TypeError else Raise AttributeError)"
  by (simp add: classify_def obind_def)

lemma classify_str:
  "classify (JStr s) =
     (if is_substring ''error'' s then Ok (Print_error (JStr s))
      else if is_substring ''method'' s then Raise TypeError else Raise AttributeError)"
  by (simp add: classify_def obind_def)

lemma classify_atom:
  "classify (JInt i) = Raise TypeError"
  "classify (JBool b) = Raise TypeError"
  "classify JNull = Raise TypeError"
  by (simp_all add: classify_def obind_def)

text \<open>
  C3, as amended. The three-way branch of the read loop (lines 104 to 109) on a decoded
  object: it is printed as an error exactly when it has an \<open>error\<close> key; as a
  notification exactly when it has a \<open>method\<close> key and no \<open>error\<close> key, whether or
  not it has an \<open>id\<close>; and as a response in every other case, with \<open>msg.get('id')\<close>,
  which is \<open>None\<close> when the key is absent. There is no malformed-message outcome.
  A payload that is not an object is tested with the \<open>in\<close> of its own type: a number, a
  boolean or \<open>null\<close> raises \<open>TypeError\<close>; a list or a string is printed as an error when
  it contains \<open>'error'\<close>, and raises otherwise.
\<close>

theorem classify_cases:
  "classify (JObj kvs) =
     Ok (if ''error'' \<in> set (map fst kvs) then Print_error (JObj kvs)
         else (case map_of kvs ''method'' of
                 Some m \<Rightarrow> Print_notif m
               | None \<Rightarrow> Print_resp (case map_of kvs ''id'' of Some i \<Rightarrow> i | None \<Rightarrow> JNull)))
   \<and> classify (JArr xs) =
     (if JStr ''error'' \<in> set xs then Ok (Print_error (JArr xs))
      else if JStr ''method'' \<in> set xs then Raise TypeError else Raise AttributeError)
   \<and> classify (JStr s) =
     (if is_substring ''error'' s then Ok (Print_error (JStr s))
      else if is_substring ''method'' s then Raise TypeError else Raise AttributeError)
   \<and> classify (JInt i) = Raise TypeError
   \<and> classify (JBool b) = Raise TypeError
   \<and> classify JNull = Raise TypeError"
  by (intro conjI) (rule classify_obj classify_arr classify_str classify_atom)+

text \<open>
  C3, as stated, fails: an empty object, which has none of \<open>error\<close>, \<open>method\<close> and
  \<open>id\<close>, is printed as a response with identifier \<open>None\<close>; and an object with a
  \<open>method\<close> and an \<open>id\<close> is printed as a notification.
\<close>

theorem classify_counterexample:
  "classify (JObj []) = Ok (Print_resp JNull)
   \<and> classify (JObj [(''method'', JStr ''window/showMessage''), (''id'', JInt 5)])
       = Ok (Print_notif (JStr ''window/showMessage''))"
  by (simp add: classify_def obind_def)

section \<open>Sequencing and the read loop, step by step\<close>

lemma decode_utf8_modelled: "decode_utf8 bs \<noteq> Unmodelled"
  by (simp add: decode_utf8_def)

lemma fst_seq:
  "fst (seq a f) = fst a @ (case snd a of Ok v \<Rightarrow> fst (f v) | Raise e \<Rightarrow> [] | Unmodelled \<Rightarrow> [])"
  by (cases a) (auto simp: seq_def split: outcome.splits prod.splits)



lemma read_loop_eof: "readline s = ([], s1) \<Longrightarrow> read_loop loads s = ([], Ok ())"
  by (subst read_loop.simps) simp

lemma read_loop_skip:
  "readline s = (line, s1) \<Longrightarrow> line \<noteq> [] \<Longrightarrow> decode_utf8 line = Ok t
    \<Longrightarrow> \<not> startswith t ''Content-Length:'' \<Longrightarrow> read_loop loads s = read_loop loads s1"
  by (subst read_loop.simps) simp

lemma read_loop_frame:
  "readline s = (line, s1) \<Longrightarrow> line \<noteq> [] \<Longrightarrow> decode_utf8 line = Ok t
    \<Longrightarrow> startswith t ''Content-Length:'' \<Longrightarrow> read_frame loads t s1 = Ok (msg, s2)
    \<Longrightarrow> classify msg = Ok ev
    \<Longrightarrow> read_loop loads s = (ev # fst (read_loop loads s2), snd (read_loop loads s2))"
  by (subst read_loop.simps) (simp split: prod.splits)

lemma read_loop_bad_line:
  "readline s = (line, s1) \<Longrightarrow> line \<noteq> [] \<Longrightarrow> decode_utf8 line = Raise e
    \<Longrightarrow> read_loop loads s = ([], Raise e)"
  by (subst read_loop.simps) simp

lemma read_loop_bad_frame:
  "readline s = (line, s1) \<Longrightarrow> line \<noteq> [] \<Longrightarrow> decode_utf8 line = Ok t
    \<Longrightarrow> startswith t ''Content-Length:'' \<Longrightarrow> read_frame loads t s1 = Raise e
    \<Longrightarrow> read_loop loads s = ([], Raise e)"
  "readline s = (line, s1) \<Longrightarrow> line \<noteq> [] \<Longrightarrow> decode_utf8 line = Ok t
    \<Longrightarrow> startswith t ''Content-Length:'' \<Longrightarrow> read_frame loads t s1 = Unmodelled
    \<Longrightarrow> read_loop loads s = ([], Unmodelled)"
  by (subst read_loop.simps, simp)+

lemma read_loop_bad_payload:
  "readline s = (line, s1) \<Longrightarrow> line \<noteq> [] \<Longrightarrow> decode_utf8 line = Ok t
    \<Longrightarrow> startswith t ''Content-Length:'' \<Longrightarrow> read_frame loads t s1 = Ok (msg, s2)
    \<Longrightarrow> classify msg = Raise e
    \<Longrightarrow> read_loop loads s = ([], Raise e)"
  "readline s = (line, s1) \<Longrightarrow> line \<noteq> [] \<Longrightarrow> decode_utf8 line = Ok t
    \<Longrightarrow> startswith t ''Content-Length:'' \<Longrightarrow> read_frame loads t s1 = Ok (msg, s2)
    \<Longrightarrow> classify msg = Unmodelled
    \<Longrightarrow> read_loop loads s = ([], Unmodelled)"
  by (subst read_loop.simps, simp)+

fun received_event :: "event \<Rightarrow> bool" where
  "received_event (Print_error msg) = True"
| "received_event (Print_notif m) = True"
| "received_event (Print_resp i) = True"
| "received_event ev = False"

lemma classify_event: "classify msg = Ok ev \<Longrightarrow> received_event ev"
  by (auto simp: classify_def obind_def split: outcome.splits if_splits)

lemma read_loop_received: "list_all received_event (fst (read_loop loads s))"
proof (induction "length s" arbitrary: s rule: less_induct)
  case less
  obtain line s1 where RL: "readline s = (line, s1)"
    by (cases "readline s")
  show ?case
  proof (cases "line = []")
    case True
    with RL show ?thesis by (simp add: read_loop_eof)
  next
    case False
    with RL have s1: "length s1 < length s"
      by (rule readline_shorter)
    show ?thesis
    proof (cases "decode_utf8 line")
      case (Raise e)
      with RL False show ?thesis by (simp add: read_loop_bad_line)
    next
      case Unmodelled
      then show ?thesis using decode_utf8_modelled by blast
    next
      case (Ok t)
      show ?thesis
      proof (cases "startswith t ''Content-Length:''")
        case no_length: False
        with RL \<open>line \<noteq> []\<close> Ok have "read_loop loads s = read_loop loads s1"
          by (rule read_loop_skip)
        with less s1 show ?thesis by simp
      next
        case True
        show ?thesis
        proof (cases "read_frame loads t s1")
          case (Raise e)
          with RL False Ok True show ?thesis by (simp add: read_loop_bad_frame)
        next
          case Unmodelled
          with RL False Ok True show ?thesis by (simp add: read_loop_bad_frame)
        next
          case frame: (Ok p)
          obtain msg s2 where p: "p = (msg, s2)" by (cases p)
          with frame have F: "read_frame loads t s1 = Ok (msg, s2)" by simp
          then have "length s2 \<le> length s1" by (rule read_frame_shorter)
          with s1 less have IH: "list_all received_event (fst (read_loop loads s2))" by simp
          show ?thesis
          proof (cases "classify msg")
            case (Raise e)
            with RL False Ok True F show ?thesis by (simp add: read_loop_bad_payload)
          next
            case Unmodelled
            with RL False Ok True F show ?thesis by (simp add: read_loop_bad_payload)
          next
            case payload: (Ok ev)
            have "read_loop loads s = (ev # fst (read_loop loads s2), snd (read_loop loads s2))"
              using RL False Ok True F payload by (rule read_loop_frame)
            with IH classify_event [OF payload] show ?thesis by simp
          qed
        qed
      qed
    qed
  qed
qed


section \<open>The stderr reader\<close>

lemma reader_loop_lines:
  "\<exists>lines. fst (reader_loop pipe name) = map (Print_stream name) lines
     \<and> snd (reader_loop pipe name) \<noteq> Unmodelled"
proof (induction pipe)
  case Nil
  show ?case by simp
next
  case (Cons r rs)
  then obtain lines where IH: "fst (reader_loop rs name) = map (Print_stream name) lines"
      "snd (reader_loop rs name) \<noteq> Unmodelled"
    by blast
  show ?case
  proof (cases r)
    case (Inl e)
    then show ?thesis by simp
  next
    case (Inr line)
    show ?thesis
    proof (cases "line = []")
      case True
      with Inr show ?thesis by simp
    next
      case False
      show ?thesis
      proof (cases "decode_utf8 line")
        case (Ok t)
        have "fst (reader_loop (r # rs) name) = map (Print_stream name) (strip t # lines)"
          using Inr False Ok IH(1) by (auto split: prod.splits)
        moreover have "snd (reader_loop (r # rs) name) \<noteq> Unmodelled"
          using Inr False Ok IH(2) by (auto split: prod.splits)
        ultimately show ?thesis by blast
      next
        case (Raise e)
        with Inr False show ?thesis by simp
      next
        case Unmodelled
        then show ?thesis using decode_utf8_modelled by blast
      qed
    qed
  qed
qed

lemma reader_loop_modelled: "snd (reader_loop pipe name) \<noteq> Unmodelled"
  using reader_loop_lines [of pipe name] by blast

lemma reader_returns: "snd (reader pipe name) = Ok ()"
proof -
  obtain evs res where R: "reader_loop pipe name = (evs, res)"
    by (cases "reader_loop pipe name")
  with reader_loop_modelled [of pipe name] have "res \<noteq> Unmodelled"
    by simp
  with R show ?thesis
    by (cases res) (simp_all add: reader_def)
qed

lemma reader_loop_printed:
  assumes "list_all (\<lambda>l. l \<noteq> [] \<and> utf8_valid (map byte l)) ls"
  shows "reader_loop (map Inr ls @ rest) name =
     (map (\<lambda>l. Print_stream name (strip l)) ls @ fst (reader_loop rest name),
      snd (reader_loop rest name))"
  using assms
proof (induction ls)
  case Nil
  show ?case by simp
next
  case (Cons l ls)
  then have "l \<noteq> []" "decode_utf8 l = Ok l"
    by (simp_all add: decode_utf8_def)
  with Cons show ?case by simp
qed

lemma reader_printed:
  assumes "list_all (\<lambda>l. l \<noteq> [] \<and> utf8_valid (map byte l)) ls"
  shows "reader (map Inr ls @ rest) name =
     (map (\<lambda>l. Print_stream name (strip l)) ls @ fst (reader rest name), Ok ())"
proof -
  obtain evs res where R: "reader_loop rest name = (evs, res)"
    by (cases "reader_loop rest name")
  with reader_loop_modelled [of rest name] have "res \<noteq> Unmodelled"
    by simp
  with R reader_loop_printed [OF assms, of rest name] show ?thesis
    by (cases res) (simp_all add: reader_def)
qed

text \<open>
  C7. Whatever the error stream does (each \<open>readline\<close> returns bytes, returns the empty
  bytes of end-of-stream, or raises), \<open>reader\<close> returns normally. Every stream is a run
  of lines that are printed (not empty, valid UTF-8) followed by one of four things, and
  the trace of the reader is determined in each case:
  \<^item> \<open>readline\<close> raises \<open>e\<close>: the lines are printed, then exactly one
    \<open>Reader ... error\<close> entry for \<open>e\<close>, and nothing of the rest of the stream is read;
  \<^item> a line is not valid UTF-8: the same, with the error of \<open>decode\<close>;
  \<^item> \<open>readline\<close> returns the empty bytes: the lines are printed and nothing else;
  \<^item> the stream has nothing more: likewise.

  The reader is a function of its own pipe and name only; the thread that runs it and a
  failure of \<open>print\<close> itself are outside the embedding.
\<close>

theorem reader_never_raises:
  assumes "list_all (\<lambda>l. l \<noteq> [] \<and> utf8_valid (map byte l)) ls"
    and "bad \<noteq> []" "\<not> utf8_valid (map byte bad)"
  shows "snd (reader pipe name) = Ok ()
   \<and> reader (map Inr ls @ Inl e # post) name =
       (map (\<lambda>l. Print_stream name (strip l)) ls @ [Print_reader_error name e], Ok ())
   \<and> reader (map Inr ls @ Inr bad # post) name =
       (map (\<lambda>l. Print_stream name (strip l)) ls @ [Print_reader_error name UnicodeDecodeError],
        Ok ())
   \<and> reader (map Inr ls @ Inr [] # post) name =
       (map (\<lambda>l. Print_stream name (strip l)) ls, Ok ())
   \<and> reader (map Inr ls) name = (map (\<lambda>l. Print_stream name (strip l)) ls, Ok ())"
proof -
  have "reader (Inl e # post) name = ([Print_reader_error name e], Ok ())"
    by (simp add: reader_def)
  moreover have "reader (Inr bad # post) name = ([Print_reader_error name UnicodeDecodeError], Ok ())"
    using assms(2,3) by (simp add: reader_def decode_utf8_def)
  moreover have "reader (Inr [] # post) name = ([], Ok ())"
    by (simp add: reader_def)
  moreover have "reader [] name = ([], Ok ())"
    by (simp add: reader_def)
  ultimately show ?thesis
    using reader_printed [OF assms(1), of _ name] reader_printed [OF assms(1), of "[]" name]
    by (simp add: reader_returns)
qed

theorem reader_never_raises_witness:
  "reader [Inr (''warn: x '' @ [LF]), Inl OSError, Inr (''never read'' @ [LF])] ''STDERR''
     = ([Print_stream ''STDERR'' ''warn: x'', Print_reader_error ''STDERR'' OSError], Ok ())
   \<and> reader [Inr (''warn: x '' @ [LF]), Inr [CHR 0xC3, LF], Inr (''never read'' @ [LF])] ''STDERR''
     = ([Print_stream ''STDERR'' ''warn: x'', Print_reader_error ''STDERR'' UnicodeDecodeError], Ok ())
   \<and> reader [Inr (''warn: x '' @ [LF]), Inr [], Inr (''never read'' @ [LF])] ''STDERR''
     = ([Print_stream ''STDERR'' ''warn: x''], Ok ())
   \<and> reader [Inr (''warn: x '' @ [LF])] ''STDERR'' = ([Print_stream ''STDERR'' ''warn: x''], Ok ())"
proof -
  have lines: "list_all (\<lambda>l. l \<noteq> [] \<and> utf8_valid (map byte l)) [''warn: x '' @ [LF]]"
    by code_simp
  have bad: "[CHR 0xC3, LF] \<noteq> []" "\<not> utf8_valid (map byte [CHR 0xC3, LF])"
    by code_simp+
  have printed: "strip (''warn: x '' @ [LF]) = ''warn: x''"
    by code_simp
  note cases = reader_never_raises [OF lines bad, of "[]" "''STDERR''" OSError
      "[Inr (''never read'' @ [LF])]"]
  from cases printed show ?thesis
    by simp
qed

section \<open>Cleanup\<close>









lemma terminate_eq:
  "terminate p =
     (Terminate # (if returncode p = None \<and> child p = Running then [Sigterm] else []),
      Ok (poll p))"
  by (cases "child p")
     (auto simp: terminate_def send_signal_def poll_def waitpid_nohang_def os_kill_def Let_def)

lemma fst_try_finally:
  "fst (try_finally env) = fst (try_except env) @ fst (terminate (spawned env))"
  by (simp add: try_finally_def terminate_eq split: prod.splits)



lemma fst_run:
  "popen_error env = None \<Longrightarrow> thread_error env = None \<Longrightarrow>
     fst (run env) =
       [Print_starting, Popen, Thread_start] @ fst (try_except env) @ fst (terminate (spawned env))"
  by (simp add: run_def fst_seq emit_def fst_try_finally)


text \<open>
  Before the \<open>try\<close>: when \<open>Popen\<close> raises there is no child; when the start of the
  reader thread raises (lines 30 to 32), \<open>run\<close> is left with that exception before the
  \<open>try\<close> of line 44 is entered.
\<close>

lemma run_before_try:
  "popen_error env = Some e \<Longrightarrow> run env = ([Print_starting], Raise e)"
  "popen_error env = None \<Longrightarrow> thread_error env = Some e
     \<Longrightarrow> run env = ([Print_starting, Popen], Raise e)"
  by (simp_all add: run_def seq_def emit_def)



section \<open>The script of the scenario\<close>

lemma send_ok:
  assumes "stdin_error env = (\<lambda>k. None)" "dumps_ok env msg" "dict_get msg ''method'' = Ok m"
  shows "send env n msg = (sent_events env msg, Ok ())"
  using assms
  by (simp add: send_def seq_def lift_def stdin_op_def emit_def sent_events_def frame_def
      dumps_ok_def)

lemma try_body_ok:
  assumes E: "stdin_error env = (\<lambda>k. None)" and S: "source_text env = Inr txt"
    and D: "list_all (dumps_ok env) (script txt)"
  shows "try_body env =
    (concat (map (sent_events env) (take 5 (script txt))) @ [Print_text ''Sent documentSymbol'']
     @ sent_events env definition_msg @ [Print_text ''Sent definition'']
     @ fst (read_loop (json_loads env) (child_stdout env)),
     snd (read_loop (json_loads env) (child_stdout env)))"
proof -
  have s1: "send env 0 initialize_msg = (sent_events env initialize_msg, Ok ())"
    using D by (intro send_ok [OF E]) (simp_all add: script_def initialize_msg_def)
  have s2: "send env (Suc 0) initialized_msg = (sent_events env initialized_msg, Ok ())"
    using D by (intro send_ok [OF E]) (simp_all add: script_def initialized_msg_def)
  have s3: "send env 2 (did_open_msg txt) = (sent_events env (did_open_msg txt), Ok ())"
    using D by (intro send_ok [OF E]) (simp_all add: script_def did_open_msg_def)
  have s4: "send env 3 semantic_tokens_msg = (sent_events env semantic_tokens_msg, Ok ())"
    using D by (intro send_ok [OF E]) (simp_all add: script_def semantic_tokens_msg_def)
  have s5: "send env 4 document_symbol_msg = (sent_events env document_symbol_msg, Ok ())"
    using D by (intro send_ok [OF E]) (simp_all add: script_def document_symbol_msg_def)
  have s6: "send env 5 definition_msg = (sent_events env definition_msg, Ok ())"
    using D by (intro send_ok [OF E]) (simp_all add: script_def definition_msg_def)
  have o: "open_read env = ([], Ok txt)"
    using S by (simp add: open_read_def)
  show ?thesis
    unfolding try_body_def
    by (simp add: s1 s2 s3 s4 s5 s6 o seq_def emit_def script_def split: prod.splits)
qed

lemma fst_try_except:
  "fst (try_except env) =
     fst (try_body env)
     @ (case snd (try_body env) of Raise e \<Rightarrow> [Print_exc e] | Ok u \<Rightarrow> [] | Unmodelled \<Rightarrow> [])"
  by (auto simp: try_except_def split: prod.splits outcome.splits)

lemma run_script_events:
  assumes "popen_error env = None" "thread_error env = None"
    and "stdin_error env = (\<lambda>k. None)" "source_text env = Inr txt"
    and "list_all (dumps_ok env) (script txt)"
  shows "fst (run env) =
     [Print_starting, Popen, Thread_start]
     @ concat (map (sent_events env) (take 5 (script txt))) @ [Print_text ''Sent documentSymbol'']
     @ sent_events env definition_msg @ [Print_text ''Sent definition'']
     @ fst (read_loop (json_loads env) (child_stdout env))
     @ (case snd (read_loop (json_loads env) (child_stdout env)) of
          Raise e \<Rightarrow> [Print_exc e] | Ok u \<Rightarrow> [] | Unmodelled \<Rightarrow> [])
     @ fst (terminate (spawned env))"
  using fst_run [OF assms(1,2)] try_body_ok [OF assms(3-5)]
  by (simp add: fst_try_except)

lemma script_ids:
  "map request_id (script txt) =
     [Some (JInt 1), None, None, Some (JInt 2), Some (JInt 3), Some (JInt 4)]"
  by (simp add: script_def request_id_def initialize_msg_def initialized_msg_def
      did_open_msg_def semantic_tokens_msg_def document_symbol_msg_def definition_msg_def)

lemma script_id_keys:
  "map (\<lambda>m. contains m ''id'') (script txt) =
     [Ok True, Ok False, Ok False, Ok True, Ok True, Ok True]"
  by (simp add: script_def initialize_msg_def initialized_msg_def
      did_open_msg_def semantic_tokens_msg_def document_symbol_msg_def definition_msg_def)

lemma request_id_absent: "request_id (JObj kvs) = None \<longleftrightarrow> ''id'' \<notin> fst ` set kvs"
  by (simp add: request_id_def map_of_eq_None_iff)

lemma script_methods:
  "map (\<lambda>m. dict_get m ''method'') (script txt) =
     [Ok (JStr ''initialize''), Ok (JStr ''initialized''), Ok (JStr ''textDocument/didOpen''),
      Ok (JStr ''textDocument/semanticTokens/full''), Ok (JStr ''textDocument/documentSymbol''),
      Ok (JStr ''textDocument/definition'')]"
  by (simp add: script_def initialize_msg_def initialized_msg_def
      did_open_msg_def semantic_tokens_msg_def document_symbol_msg_def definition_msg_def)


lemma stdin_writes_append: "stdin_writes (a @ b) = stdin_writes a @ stdin_writes b"
  by (induction a rule: stdin_writes.induct) simp_all

lemma stdin_writes_received: "list_all received_event evs \<Longrightarrow> stdin_writes evs = []"
proof (induction evs)
  case Nil
  show ?case by simp
next
  case (Cons ev evs)
  then show ?case by (cases ev) simp_all
qed

lemma writes_seq:
  "stdin_writes (fst (seq a f)) =
     stdin_writes (fst a)
     @ (case snd a of Ok v \<Rightarrow> stdin_writes (fst (f v)) | Raise e \<Rightarrow> [] | Unmodelled \<Rightarrow> [])"
  by (simp add: fst_seq stdin_writes_append split: outcome.splits)

lemma prefix_seq:
  assumes "prefix (stdin_writes (fst a)) A"
    and "\<And>v. snd a = Ok v \<Longrightarrow> stdin_writes (fst a) = A"
    and "\<And>v. snd a = Ok v \<Longrightarrow> prefix (stdin_writes (fst (f v))) B"
  shows "prefix (stdin_writes (fst (seq a f))) (A @ B)"
proof (cases "snd a")
  case (Ok v)
  with assms(2,3) show ?thesis by (simp add: writes_seq)
next
  case (Raise e)
  with assms(1) show ?thesis by (simp add: writes_seq)
next
  case Unmodelled
  with assms(1) show ?thesis by (simp add: writes_seq)
qed

lemma send_writes:
  "prefix (stdin_writes (fst (send env n msg))) (frame env msg)"
  "snd (send env n msg) = Ok u \<Longrightarrow> stdin_writes (fst (send env n msg)) = frame env msg"
  by (auto simp: send_def seq_def lift_def stdin_op_def emit_def frame_def content_def
      split: outcome.splits option.splits prod.splits)

lemma try_body_writes:
  "prefix (stdin_writes (fst (try_body env)))
     (frame env initialize_msg @ frame env initialized_msg @ []
      @ frame env (did_open_msg (case source_text env of Inr t \<Rightarrow> t | Inl e \<Rightarrow> []))
      @ frame env semantic_tokens_msg @ frame env document_symbol_msg @ []
      @ frame env definition_msg @ [] @ [])"
  unfolding try_body_def
proof (intro prefix_seq send_writes)
  show "prefix (stdin_writes (fst (open_read env))) []"
    by (simp add: open_read_def split: sum.splits)
  show "stdin_writes (fst (open_read env)) = []"
    by (simp add: open_read_def split: sum.splits)
  show "prefix (stdin_writes (fst (send env 2 (did_open_msg v))))
      (frame env (did_open_msg (case source_text env of Inl e \<Rightarrow> [] | Inr t \<Rightarrow> t)))"
    if "snd (open_read env) = Ok v" for v
  proof -
    from that have "source_text env = Inr v"
      by (simp add: open_read_def split: sum.splits)
    then show ?thesis by (simp add: send_writes)
  qed
  show "stdin_writes (fst (send env 2 (did_open_msg v)))
      = frame env (did_open_msg (case source_text env of Inl e \<Rightarrow> [] | Inr t \<Rightarrow> t))"
    if "snd (open_read env) = Ok v" "snd (send env 2 (did_open_msg v)) = Ok u" for v u
  proof -
    from that(1) have "source_text env = Inr v"
      by (simp add: open_read_def split: sum.splits)
    with that(2) show ?thesis by (simp add: send_writes)
  qed
  show "prefix (stdin_writes (fst (read_loop (json_loads env) (child_stdout env)))) []"
    by (simp add: stdin_writes_received read_loop_received)
qed (simp_all add: emit_def)

lemma script_params:
  "dict_get initialize_msg ''params'' = Ok (JObj [])"
  "dict_get initialized_msg ''params'' = Ok (JObj [])"
  "dict_get (did_open_msg txt) ''params'' =
     Ok (JObj [(''textDocument'',
        JObj [(''uri'', JStr ''file:///tmp/astar.mml''), (''languageId'', JStr ''mml''),
              (''version'', JInt 1), (''text'', JStr txt)])])"
  "dict_get semantic_tokens_msg ''params'' =
     Ok (JObj [(''textDocument'', JObj [(''uri'', JStr ''file:///tmp/astar.mml'')])])"
  "dict_get document_symbol_msg ''params'' =
     Ok (JObj [(''textDocument'', JObj [(''uri'', JStr ''file:///tmp/astar.mml'')])])"
  "dict_get definition_msg ''params'' =
     Ok (JObj [(''textDocument'', JObj [(''uri'', JStr ''file:///tmp/astar.mml'')]),
               (''position'', JObj [(''line'', JInt 130), (''character'', JInt 6)])])"
  by (simp_all add: initialize_msg_def initialized_msg_def
      did_open_msg_def semantic_tokens_msg_def document_symbol_msg_def definition_msg_def)

text \<open>
  C5. In every run, whatever fails, the frames written to the child are an initial part of
  the frames of the script, in the order of the script (\<open>stdin_writes\<close> lists the
  arguments of the \<open>write\<close> calls, and \<open>frame\<close> is the header and the body of one
  message). The identifiers of the script are the literals of the source: the four requests
  carry the integers 1, 2, 3 and 4 under the key \<open>id\<close>, in that order, and the two
  notifications have no key \<open>id\<close> at all. So the identifiers of the requests sent in one
  run start at 1, grow by 1 and are never reused.
\<close>

theorem request_ids_in_order:
  "prefix (stdin_writes (fst (run env)))
     (concat (map (frame env) (script (case source_text env of Inr t \<Rightarrow> t | Inl e \<Rightarrow> []))))
   \<and> map request_id (script txt) =
       [Some (JInt 1), None, None, Some (JInt 2), Some (JInt 3), Some (JInt 4)]
   \<and> map (\<lambda>m. contains m ''id'') (script txt) =
       [Ok True, Ok False, Ok False, Ok True, Ok True, Ok True]
   \<and> List.map_filter request_id (script txt) = map JInt [1..4]"
proof -
  have "prefix (stdin_writes (fst (run env)))
     (concat (map (frame env) (script (case source_text env of Inr t \<Rightarrow> t | Inl e \<Rightarrow> []))))"
  proof (cases "popen_error env")
    case (Some e)
    then show ?thesis by (simp add: run_before_try)
  next
    case None
    show ?thesis
    proof (cases "thread_error env")
      case (Some e)
      with None show ?thesis by (simp add: run_before_try)
    next
      case started: None
      have "stdin_writes (fst (try_except env)) = stdin_writes (fst (try_body env))"
        by (simp add: fst_try_except stdin_writes_append split: outcome.splits)
      then have "stdin_writes (fst (run env)) = stdin_writes (fst (try_body env))"
        using fst_run [OF None started] by (simp add: stdin_writes_append terminate_eq)
      then show ?thesis using try_body_writes [of env] by (simp add: script_def)
    qed
  qed
  moreover have "List.map_filter request_id (script txt) = map JInt [1..4]"
  proof -
    have "[1..4] = [1, 2, 3, 4::int]" by (simp add: upto.simps)
    then show ?thesis
      by (simp add: List.map_filter_def script_def request_id_def initialize_msg_def
          initialized_msg_def did_open_msg_def semantic_tokens_msg_def document_symbol_msg_def
          definition_msg_def)
  qed
  ultimately show ?thesis using script_ids [of "txt"] script_id_keys [of "txt"] by blast
qed

theorem request_ids_in_order_witness:
  "stdin_writes (fst (run quiet_env)) =
     [header 65,
      ''{\"jsonrpc\": \"2.0\", \"method\": \"initialize\", \"params\": {}, \"id\": 1}'',
      header 57,
      ''{\"jsonrpc\": \"2.0\", \"method\": \"initialized\", \"params\": {}}'',
      header 175,
      ''{\"jsonrpc\": \"2.0\", \"method\": \"textDocument/didOpen\", \"params\": {\"textDocument\": {\"uri\": \"file:///tmp/astar.mml\", \"languageId\": \"mml\", \"version\": 1, \"text\": \"fn main() = 1;\"}}}'',
      header 135,
      ''{\"jsonrpc\": \"2.0\", \"method\": \"textDocument/semanticTokens/full\", \"params\": {\"textDocument\": {\"uri\": \"file:///tmp/astar.mml\"}}, \"id\": 2}'',
      header 130,
      ''{\"jsonrpc\": \"2.0\", \"method\": \"textDocument/documentSymbol\", \"params\": {\"textDocument\": {\"uri\": \"file:///tmp/astar.mml\"}}, \"id\": 3}'',
      header 169,
      ''{\"jsonrpc\": \"2.0\", \"method\": \"textDocument/definition\", \"params\": {\"textDocument\": {\"uri\": \"file:///tmp/astar.mml\"}, \"position\": {\"line\": 130, \"character\": 6}}, \"id\": 4}'']
   \<and> prefix (stdin_writes (fst (run quiet_env)))
       (concat (map (frame quiet_env) (script ''fn main() = 1;'')))
   \<and> stdin_writes (fst (run broken_pipe_env)) = frame broken_pipe_env initialize_msg"
proof -
  have "stdin_writes (fst (run quiet_env)) =
     [header 65,
      ''{\"jsonrpc\": \"2.0\", \"method\": \"initialize\", \"params\": {}, \"id\": 1}'',
      header 57,
      ''{\"jsonrpc\": \"2.0\", \"method\": \"initialized\", \"params\": {}}'',
      header 175,
      ''{\"jsonrpc\": \"2.0\", \"method\": \"textDocument/didOpen\", \"params\": {\"textDocument\": {\"uri\": \"file:///tmp/astar.mml\", \"languageId\": \"mml\", \"version\": 1, \"text\": \"fn main() = 1;\"}}}'',
      header 135,
      ''{\"jsonrpc\": \"2.0\", \"method\": \"textDocument/semanticTokens/full\", \"params\": {\"textDocument\": {\"uri\": \"file:///tmp/astar.mml\"}}, \"id\": 2}'',
      header 130,
      ''{\"jsonrpc\": \"2.0\", \"method\": \"textDocument/documentSymbol\", \"params\": {\"textDocument\": {\"uri\": \"file:///tmp/astar.mml\"}}, \"id\": 3}'',
      header 169,
      ''{\"jsonrpc\": \"2.0\", \"method\": \"textDocument/definition\", \"params\": {\"textDocument\": {\"uri\": \"file:///tmp/astar.mml\"}, \"position\": {\"line\": 130, \"character\": 6}}, \"id\": 4}'']"
    by code_simp
  moreover have "stdin_writes (fst (run broken_pipe_env)) = frame broken_pipe_env initialize_msg"
    by code_simp
  moreover have "source_text quiet_env = Inr ''fn main() = 1;''"
    by (simp add: quiet_env_def)
  then have "prefix (stdin_writes (fst (run quiet_env)))
       (concat (map (frame quiet_env) (script ''fn main() = 1;'')))"
    using request_ids_in_order [of quiet_env, THEN conjunct1] by simp
  ultimately show ?thesis by (intro conjI)
qed

text \<open>
  C6. When the child is spawned, the source file is read and no write fails, the trace of
  \<open>run\<close> is: the start line, the spawn and the start of the reader thread; then the six
  sends of the script in order (each one writes the header, writes the body, flushes and
  prints \<open>Sent: method\<close>), with the two extra print lines after the fifth and the sixth;
  only then the events of the read loop; then the cleanup. The part before the read loop
  does not mention the child's output, so no send waits for a reply. The methods and
  parameters of the six payloads are those of the claim; the four requests carry the
  integers 1 to 4 under the key \<open>id\<close>, and the two notifications (\<open>initialized\<close>
  and \<open>didOpen\<close>) have no key \<open>id\<close>.
\<close>

theorem scenario_script:
  assumes "popen_error env = None" "thread_error env = None"
    and "stdin_error env = (\<lambda>k. None)" "source_text env = Inr txt"
    and "list_all (dumps_ok env) (script txt)"
  shows "fst (run env) =
     [Print_starting, Popen, Thread_start]
     @ concat (map (sent_events env) (take 5 (script txt))) @ [Print_text ''Sent documentSymbol'']
     @ sent_events env definition_msg @ [Print_text ''Sent definition'']
     @ fst (read_loop (json_loads env) (child_stdout env))
     @ (case snd (read_loop (json_loads env) (child_stdout env)) of
          Raise e \<Rightarrow> [Print_exc e] | Ok u \<Rightarrow> [] | Unmodelled \<Rightarrow> [])
     @ fst (terminate (spawned env))
   \<and> map (\<lambda>m. dict_get m ''method'') (script txt) =
     [Ok (JStr ''initialize''), Ok (JStr ''initialized''), Ok (JStr ''textDocument/didOpen''),
      Ok (JStr ''textDocument/semanticTokens/full''), Ok (JStr ''textDocument/documentSymbol''),
      Ok (JStr ''textDocument/definition'')]
   \<and> map request_id (script txt) =
       [Some (JInt 1), None, None, Some (JInt 2), Some (JInt 3), Some (JInt 4)]
   \<and> map (\<lambda>m. contains m ''id'') (script txt) =
       [Ok True, Ok False, Ok False, Ok True, Ok True, Ok True]
   \<and> dict_get initialize_msg ''params'' = Ok (JObj [])
   \<and> dict_get initialized_msg ''params'' = Ok (JObj [])
   \<and> dict_get (did_open_msg txt) ''params'' =
     Ok (JObj [(''textDocument'',
        JObj [(''uri'', JStr ''file:///tmp/astar.mml''), (''languageId'', JStr ''mml''),
              (''version'', JInt 1), (''text'', JStr txt)])])
   \<and> dict_get semantic_tokens_msg ''params'' =
     Ok (JObj [(''textDocument'', JObj [(''uri'', JStr ''file:///tmp/astar.mml'')])])
   \<and> dict_get document_symbol_msg ''params'' =
     Ok (JObj [(''textDocument'', JObj [(''uri'', JStr ''file:///tmp/astar.mml'')])])
   \<and> dict_get definition_msg ''params'' =
     Ok (JObj [(''textDocument'', JObj [(''uri'', JStr ''file:///tmp/astar.mml'')]),
               (''position'', JObj [(''line'', JInt 130), (''character'', JInt 6)])])"
  using run_script_events [OF assms]
  by (simp add: script_methods script_ids script_id_keys script_params)

theorem scenario_script_witness:
  "fst (run quiet_env) =
     [Print_starting, Popen, Thread_start]
     @ concat (map (sent_events quiet_env) (take 5 (script ''fn main() = 1;'')))
     @ [Print_text ''Sent documentSymbol'']
     @ sent_events quiet_env definition_msg @ [Print_text ''Sent definition'']
     @ [Print_resp (JInt 1)] @ [Terminate, Sigterm]
   \<and> sent_events quiet_env initialize_msg =
     [Stdin_write (''Content-Type: application/vscode-jsonrpc; charset=utf-8'' @ [CR, LF]
                   @ ''Content-Length: 65'' @ [CR, LF, CR, LF]),
      Stdin_write ''{\"jsonrpc\": \"2.0\", \"method\": \"initialize\", \"params\": {}, \"id\": 1}'',
      Stdin_flush, Print_sent (JStr ''initialize'')]
   \<and> sent_events quiet_env initialized_msg =
     [Stdin_write (''Content-Type: application/vscode-jsonrpc; charset=utf-8'' @ [CR, LF]
                   @ ''Content-Length: 57'' @ [CR, LF, CR, LF]),
      Stdin_write ''{\"jsonrpc\": \"2.0\", \"method\": \"initialized\", \"params\": {}}'',
      Stdin_flush, Print_sent (JStr ''initialized'')]
   \<and> sent_events quiet_env (did_open_msg ''fn main() = 1;'') =
     [Stdin_write (''Content-Type: application/vscode-jsonrpc; charset=utf-8'' @ [CR, LF]
                   @ ''Content-Length: 175'' @ [CR, LF, CR, LF]),
      Stdin_write ''{\"jsonrpc\": \"2.0\", \"method\": \"textDocument/didOpen\", \"params\": {\"textDocument\": {\"uri\": \"file:///tmp/astar.mml\", \"languageId\": \"mml\", \"version\": 1, \"text\": \"fn main() = 1;\"}}}'',
      Stdin_flush, Print_sent (JStr ''textDocument/didOpen'')]"
proof -
  have env: "popen_error quiet_env = None" "thread_error quiet_env = None"
    "stdin_error quiet_env = (\<lambda>k. None)" "source_text quiet_env = Inr ''fn main() = 1;''"
    by (simp_all add: quiet_env_def)
  have dumps: "list_all (dumps_ok quiet_env) (script ''fn main() = 1;'')"
    by code_simp
  have loop: "read_loop (json_loads quiet_env) (child_stdout quiet_env) = ([Print_resp (JInt 1)], Ok ())"
    by code_simp
  have cleanup: "fst (terminate (spawned quiet_env)) = [Terminate, Sigterm]"
    by code_simp
  have first: "sent_events quiet_env initialize_msg =
     [Stdin_write (''Content-Type: application/vscode-jsonrpc; charset=utf-8'' @ [CR, LF]
                   @ ''Content-Length: 65'' @ [CR, LF, CR, LF]),
      Stdin_write ''{\"jsonrpc\": \"2.0\", \"method\": \"initialize\", \"params\": {}, \"id\": 1}'',
      Stdin_flush, Print_sent (JStr ''initialize'')]"
    by code_simp
  have second: "sent_events quiet_env initialized_msg =
     [Stdin_write (''Content-Type: application/vscode-jsonrpc; charset=utf-8'' @ [CR, LF]
                   @ ''Content-Length: 57'' @ [CR, LF, CR, LF]),
      Stdin_write ''{\"jsonrpc\": \"2.0\", \"method\": \"initialized\", \"params\": {}}'',
      Stdin_flush, Print_sent (JStr ''initialized'')]"
    by code_simp
  have third: "sent_events quiet_env (did_open_msg ''fn main() = 1;'') =
     [Stdin_write (''Content-Type: application/vscode-jsonrpc; charset=utf-8'' @ [CR, LF]
                   @ ''Content-Length: 175'' @ [CR, LF, CR, LF]),
      Stdin_write ''{\"jsonrpc\": \"2.0\", \"method\": \"textDocument/didOpen\", \"params\": {\"textDocument\": {\"uri\": \"file:///tmp/astar.mml\", \"languageId\": \"mml\", \"version\": 1, \"text\": \"fn main() = 1;\"}}}'',
      Stdin_flush, Print_sent (JStr ''textDocument/didOpen'')]"
    by code_simp
  have "fst (run quiet_env) =
     [Print_starting, Popen, Thread_start]
     @ concat (map (sent_events quiet_env) (take 5 (script ''fn main() = 1;'')))
     @ [Print_text ''Sent documentSymbol'']
     @ sent_events quiet_env definition_msg @ [Print_text ''Sent definition'']
     @ [Print_resp (JInt 1)] @ [Terminate, Sigterm]"
    using scenario_script [OF env dumps, THEN conjunct1] by (simp only: loop cleanup fst_conv snd_conv outcome.case append_Nil)
  with first second third show ?thesis by (intro conjI)
qed

section \<open>Frames: what is sent can be read back\<close>

lemma readline_line: "LF \<notin> set l \<Longrightarrow> readline (l @ LF # r) = (l @ [LF], r)"
  by (induction l) auto

lemma utf8_valid_ascii: "list_all (\<lambda>b. b < 128) bs \<Longrightarrow> utf8_valid bs"
  by (induction bs) auto

lemma decode_utf8_ascii: "list_all (\<lambda>c. byte c < 128) s \<Longrightarrow> decode_utf8 s = Ok s"
  by (simp add: decode_utf8_def utf8_valid_ascii list_all_iff)

lemma str_split_none: "sep \<notin> set s \<Longrightarrow> str_split sep s = [s]"
  by (induction s) auto

lemma str_split_first: "sep \<notin> set p \<Longrightarrow> str_split sep (p @ sep # s) = p # str_split sep s"
  by (induction p) auto

lemma byte_digit: "d < 10 \<Longrightarrow> byte (char_of (48 + d)) = 48 + d"
  by (simp add: byte_def)

lemma str_nat_digits: "list_all is_digit (str_nat n)"
proof (induction n rule: str_nat.induct)
  case (1 n)
  show ?case
  proof (cases "n < 10")
    case True
    then show ?thesis by (subst str_nat.simps) (simp add: is_digit_def byte_digit)
  next
    case False
    moreover have "is_digit (char_of (48 + n mod 10))"
      by (simp add: is_digit_def byte_digit)
    ultimately show ?thesis using 1 by (subst str_nat.simps) simp
  qed
qed

lemma str_nat_nonempty: "str_nat n \<noteq> []"
  by (subst str_nat.simps) simp

lemma parse_digits_all:
  "list_all is_digit ds \<Longrightarrow> parse_digits acc ds = Some (foldl (\<lambda>a c. 10 * a + digit_val c) acc ds)"
  by (induction ds arbitrary: acc) auto

lemma parse_decimal_all:
  "list_all is_digit ds \<Longrightarrow> ds \<noteq> [] \<Longrightarrow>
     parse_decimal ds = Some (foldl (\<lambda>a c. 10 * a + digit_val c) 0 ds)"
  by (cases ds) (simp_all add: parse_decimal_def parse_digits_all)

lemma foldl_str_nat: "foldl (\<lambda>a c. 10 * a + digit_val c) 0 (str_nat n) = n"
proof (induction n rule: str_nat.induct)
  case (1 n)
  show ?case
  proof (cases "n < 10")
    case True
    then show ?thesis by (subst str_nat.simps) (simp add: digit_val_def byte_digit)
  next
    case False
    then show ?thesis using 1 by (subst str_nat.simps) (simp add: digit_val_def byte_digit)
  qed
qed

lemma parse_decimal_str_nat: "parse_decimal (str_nat n) = Some n"
  by (simp add: parse_decimal_all str_nat_digits str_nat_nonempty foldl_str_nat)


lemma digit_plain: "is_digit c \<Longrightarrow> byte c < 128 \<and> \<not> space1 (byte c) \<and> c \<noteq> CHR '':'' \<and> c \<noteq> LF
    \<and> c \<noteq> CHR ''+'' \<and> c \<noteq> CHR ''-''"
  by (auto simp: is_digit_def space1_def byte_def LF_def)

lemma lstrip_plain: "byte a < 128 \<Longrightarrow> \<not> space1 (byte a) \<Longrightarrow> lstrip (a # s) = a # s"
  by (cases "(a # s)" rule: lstrip.cases) (auto simp: space2_def space3_def)

lemma rstrip_rev_plain: "byte c < 128 \<Longrightarrow> \<not> space1 (byte c) \<Longrightarrow> rstrip_rev (c # s) = c # s"
  by (cases "(c # s)" rule: rstrip_rev.cases) (auto simp: space2_def space3_def)

lemma lstrip_space1: "space1 (byte a) \<Longrightarrow> lstrip (a # s) = lstrip s"
  by (cases "(a # s)" rule: lstrip.cases) auto

lemma rstrip_rev_space1: "space1 (byte c) \<Longrightarrow> rstrip_rev (c # s) = rstrip_rev s"
  by (cases "(c # s)" rule: rstrip_rev.cases) auto

lemma strip_digits:
  assumes "list_all is_digit ds" "ds \<noteq> []"
  shows "strip ds = ds" "strip ('' '' @ ds @ [CR, LF]) = ds"
proof -
  obtain d r where ds: "ds = d # r" using assms(2) by (cases ds) auto
  with assms(1) have d: "byte d < 128" "\<not> space1 (byte d)"
    using digit_plain by auto
  obtain e q where rv: "rev ds = e # q" using assms(2) by (cases "rev ds") auto
  then have "e \<in> set ds" by (metis list.set_intros(1) set_rev)
  with assms(1) have e: "byte e < 128" "\<not> space1 (byte e)"
    using digit_plain by (auto simp: list_all_iff)
  have sp: "space1 (byte (CHR '' ''))" "space1 (byte CR)" "space1 (byte LF)"
    by (simp_all add: space1_def byte_def CR_def LF_def)
  have l1: "lstrip ds = ds"
    unfolding ds using d by (rule lstrip_plain)
  have r1: "rstrip_rev (rev ds) = rev ds"
    unfolding rv using e by (rule rstrip_rev_plain)
  show "strip ds = ds"
    by (simp only: strip_def l1 r1 rev_rev_ident)
  have "lstrip ('' '' @ ds @ [CR, LF]) = ds @ [CR, LF]"
    using sp(1) d by (simp add: lstrip_space1 ds lstrip_plain)
  moreover have "rstrip_rev (rev (ds @ [CR, LF])) = rev ds"
    using sp(2,3) e by (simp add: rstrip_rev_space1 rv rstrip_rev_plain)
  ultimately show "strip ('' '' @ ds @ [CR, LF]) = ds"
    by (simp add: strip_def)
qed

lemma py_int_str_nat: "py_int (str_nat n) = Ok (int n)"
proof -
  have dig: "list_all is_digit (str_nat n)" by (rule str_nat_digits)
  obtain d r where ds: "str_nat n = d # r"
    using str_nat_nonempty [of n] by (cases "str_nat n") auto
  have ascii: "\<not> (\<exists>c \<in> set (str_nat n). 128 \<le> byte c)"
    using dig digit_plain by (fastforce simp: list_all_iff)
  have sign: "d \<noteq> CHR ''+''" "d \<noteq> CHR ''-''"
    using dig ds digit_plain by auto
  have "strip (str_nat n) = d # r"
    using strip_digits(1) [OF dig str_nat_nonempty] ds by simp
  moreover have "parse_decimal (d # r) = Some n"
    using parse_decimal_str_nat [of n] ds by simp
  ultimately show ?thesis
    using ascii sign by (simp add: py_int_def)
qed

lemma header_eq:
  "header l = (''Content-Type: application/vscode-jsonrpc; charset=utf-8'' @ [CR]) @ LF
     # (''Content-Length: '' @ str_nat l @ [CR]) @ LF # [CR, LF]"
  by (simp add: header_def)

lemma str_nat_no_lf: "LF \<notin> set (str_nat l)" and str_nat_no_colon: "CHR '':'' \<notin> set (str_nat l)"
  using str_nat_digits [of l] digit_plain by (auto simp: list_all_iff)

lemma read_frame_declared:
  assumes "n < 2 ^ 31"
  shows "read_frame loads (''Content-Length: '' @ str_nat n @ [CR, LF]) ([CR, LF] @ s)
     = obind (decode_utf8 (take n s)) (\<lambda>t. obind (loads t) (\<lambda>m. Ok (m, drop n s)))"
proof -
  have split: "str_split (CHR '':'') (''Content-Length: '' @ str_nat n @ [CR, LF])
      = [''Content-Length'', '' '' @ str_nat n @ [CR, LF]]"
  proof -
    have "CHR '':'' \<notin> set ('' '' @ str_nat n @ [CR, LF])"
      using str_nat_no_colon by (simp add: CR_def LF_def)
    then have "str_split (CHR '':'') ('' '' @ str_nat n @ [CR, LF])
        = ['' '' @ str_nat n @ [CR, LF]]"
      by (rule str_split_none)
    moreover have "str_split (CHR '':'') (''Content-Length'' @ CHR '':'' # ('' '' @ str_nat n @ [CR, LF]))
        = ''Content-Length'' # str_split (CHR '':'') ('' '' @ str_nat n @ [CR, LF])"
      by (rule str_split_first) simp
    ultimately show ?thesis by simp
  qed
  have "strip ('' '' @ str_nat n @ [CR, LF]) = str_nat n"
    using str_nat_digits str_nat_nonempty by (rule strip_digits(2))
  then have field: "py_int (strip ('' '' @ str_nat n @ [CR, LF])) = Ok (int n)"
    by (simp only: py_int_str_nat)
  have rl: "readline ([CR, LF] @ s) = ([CR, LF], s)"
    using readline_line [of "[CR]" s] by (simp add: CR_def LF_def)
  have rd: "stream_read (int n) s = Ok (take n s, drop n s)"
    using assms by (simp add: stream_read_def)
  have sub: "subscript [''Content-Length'', '' '' @ str_nat n @ [CR, LF]] 1
      = Ok ('' '' @ str_nat n @ [CR, LF])"
    by (simp add: subscript_def)
  have rl': "snd (readline ([CR, LF] @ s)) = s"
    by (simp only: rl snd_conv)
  show ?thesis
    unfolding read_frame_def split sub
    by (simp only: obind_def outcome.case field rl' rd prod.case)
qed

lemma read_frame_round_trip:
  assumes "loads c = Ok m" "utf8_valid (map byte c)" "length c < 2 ^ 31"
  shows "read_frame loads (''Content-Length: '' @ str_nat (length c) @ [CR, LF]) ([CR, LF] @ c)
     = Ok (m, [])"
proof -
  have "decode_utf8 c = Ok c"
    using assms(2) by (simp add: decode_utf8_def)
  then show ?thesis
    using read_frame_declared [OF assms(3), of loads c] assms(1) by (simp add: obind_def)
qed

lemma read_loop_empty: "read_loop loads [] = ([], Ok ())"
  by (rule read_loop_eof [of "[]" "[]"]) simp

lemma content_type_line:
  "readline (header l @ c)
     = (''Content-Type: application/vscode-jsonrpc; charset=utf-8'' @ [CR, LF],
        ''Content-Length: '' @ str_nat l @ [CR, LF] @ [CR, LF] @ c)"
  "decode_utf8 (''Content-Type: application/vscode-jsonrpc; charset=utf-8'' @ [CR, LF])
     = Ok (''Content-Type: application/vscode-jsonrpc; charset=utf-8'' @ [CR, LF])"
  "\<not> startswith (''Content-Type: application/vscode-jsonrpc; charset=utf-8'' @ [CR, LF])
       ''Content-Length:''"
proof -
  have "LF \<notin> set (''Content-Type: application/vscode-jsonrpc; charset=utf-8'' @ [CR])"
    by (simp add: CR_def LF_def)
  from readline_line [OF this]
  show "readline (header l @ c)
     = (''Content-Type: application/vscode-jsonrpc; charset=utf-8'' @ [CR, LF],
        ''Content-Length: '' @ str_nat l @ [CR, LF] @ [CR, LF] @ c)"
    by (simp add: header_def)
  show "decode_utf8 (''Content-Type: application/vscode-jsonrpc; charset=utf-8'' @ [CR, LF])
     = Ok (''Content-Type: application/vscode-jsonrpc; charset=utf-8'' @ [CR, LF])"
    by (rule decode_utf8_ascii) (simp add: byte_def CR_def LF_def)
  show "\<not> startswith (''Content-Type: application/vscode-jsonrpc; charset=utf-8'' @ [CR, LF])
       ''Content-Length:''"
    by simp
qed

lemma content_length_line:
  "readline (''Content-Length: '' @ str_nat l @ [CR, LF] @ [CR, LF] @ c)
     = (''Content-Length: '' @ str_nat l @ [CR, LF], [CR, LF] @ c)"
  "decode_utf8 (''Content-Length: '' @ str_nat l @ [CR, LF])
     = Ok (''Content-Length: '' @ str_nat l @ [CR, LF])"
  "startswith (''Content-Length: '' @ str_nat l @ [CR, LF]) ''Content-Length:''"
  "''Content-Length: '' @ str_nat l @ [CR, LF] \<noteq> []"
proof -
  have "LF \<notin> set (''Content-Length: '' @ str_nat l @ [CR])"
    using str_nat_no_lf by (simp add: CR_def LF_def)
  from readline_line [OF this]
  show "readline (''Content-Length: '' @ str_nat l @ [CR, LF] @ [CR, LF] @ c)
     = (''Content-Length: '' @ str_nat l @ [CR, LF], [CR, LF] @ c)"
    by simp
  have "list_all (\<lambda>c. byte c < 128) (str_nat l)"
    using str_nat_digits [of l] digit_plain by (auto simp: list_all_iff)
  then show "decode_utf8 (''Content-Length: '' @ str_nat l @ [CR, LF])
     = Ok (''Content-Length: '' @ str_nat l @ [CR, LF])"
    by (intro decode_utf8_ascii) (simp add: byte_def CR_def LF_def)
  show "startswith (''Content-Length: '' @ str_nat l @ [CR, LF]) ''Content-Length:''"
    by simp
  show "''Content-Length: '' @ str_nat l @ [CR, LF] \<noteq> []"
    by simp
qed

lemma read_loop_round_trip:
  assumes "loads c = Ok m" "utf8_valid (map byte c)" "length c < 2 ^ 31"
  shows "read_loop loads (header (length c) @ c) =
     (case classify m of
        Ok ev \<Rightarrow> ([ev], Ok ()) | Raise e \<Rightarrow> ([], Raise e) | Unmodelled \<Rightarrow> ([], Unmodelled))"
proof -
  let ?s1 = "''Content-Length: '' @ str_nat (length c) @ [CR, LF] @ [CR, LF] @ c"
  let ?l2 = "''Content-Length: '' @ str_nat (length c) @ [CR, LF]"
  have "read_loop loads (header (length c) @ c) = read_loop loads ?s1"
    by (rule read_loop_skip [OF content_type_line(1) _ content_type_line(2,3)]) simp
  moreover have F: "read_frame loads ?l2 ([CR, LF] @ c) = Ok (m, [])"
    using assms by (rule read_frame_round_trip)
  moreover have "read_loop loads ?s1 =
     (case classify m of
        Ok ev \<Rightarrow> ([ev], Ok ()) | Raise e \<Rightarrow> ([], Raise e) | Unmodelled \<Rightarrow> ([], Unmodelled))"
  proof (cases "classify m")
    case (Ok ev)
    have "read_loop loads ?s1 = (ev # fst (read_loop loads []), snd (read_loop loads []))"
      by (rule read_loop_frame [OF content_length_line(1,4,2,3) F Ok])
    with Ok show ?thesis by (simp add: read_loop_empty)
  next
    case (Raise e)
    have "read_loop loads ?s1 = ([], Raise e)"
      by (rule read_loop_bad_payload(1)
          [OF content_length_line(1,4,2,3) F Raise])
    with Raise show ?thesis by simp
  next
    case Unmodelled
    have "read_loop loads ?s1 = ([], Unmodelled)"
      by (rule read_loop_bad_payload(2)
          [OF content_length_line(1,4,2,3) F Unmodelled])
    with Unmodelled show ?thesis by simp
  qed
  ultimately show ?thesis by simp
qed

lemma send_writes_ok:
  "stdin_error env = (\<lambda>k. None) \<Longrightarrow> json_dumps env m = Ok c
     \<Longrightarrow> stdin_writes (fst (send env n m)) = [header (length c), c]"
  by (auto simp: send_def seq_def lift_def stdin_op_def emit_def split: outcome.splits prod.splits)

text \<open>
  C1. \<open>send\<close> writes the header and then the body \<open>c = json.dumps(msg)\<close>. Fed to the
  read loop, these bytes are decoded as follows: the first line, \<open>Content-Type\<close>, is
  skipped; the second line is the \<open>Content-Length\<close> line, and the frame read from it
  (the length parsed from the header, one more line consumed, exactly that many bytes read,
  decoded and passed to \<open>json.loads\<close>) is the message that was sent, with nothing left
  in the stream. The loop then prints the classification of that same message and ends at
  end-of-stream. The json module is a parameter: the theorem holds for every
  \<open>dumps\<close> and \<open>loads\<close> with \<open>loads (dumps msg) = msg\<close>. The body must be shorter
  than \<open>2^31\<close> bytes, the bound of \<open>stream_read\<close>.
\<close>

theorem frame_round_trip:
  assumes "stdin_error env = (\<lambda>k. None)" "json_dumps env m = Ok c" "json_loads env c = Ok m"
    and "utf8_valid (map byte c)" "length c < 2 ^ 31"
  shows "stdin_writes (fst (send env n m)) = [header (length c), c]
   \<and> (\<exists>line1 rest1 line2 rest2.
         readline (header (length c) @ c) = (line1, rest1)
         \<and> \<not> startswith line1 ''Content-Length:''
         \<and> readline rest1 = (line2, rest2)
         \<and> startswith line2 ''Content-Length:''
         \<and> read_frame (json_loads env) line2 rest2 = Ok (m, []))
   \<and> read_loop (json_loads env) (header (length c) @ c) =
       (case classify m of
          Ok ev \<Rightarrow> ([ev], Ok ()) | Raise e \<Rightarrow> ([], Raise e) | Unmodelled \<Rightarrow> ([], Unmodelled))"
proof (intro conjI)
  show "stdin_writes (fst (send env n m)) = [header (length c), c]"
    using assms(1,2) by (rule send_writes_ok)
  show "\<exists>line1 rest1 line2 rest2.
         readline (header (length c) @ c) = (line1, rest1)
         \<and> \<not> startswith line1 ''Content-Length:''
         \<and> readline rest1 = (line2, rest2)
         \<and> startswith line2 ''Content-Length:''
         \<and> read_frame (json_loads env) line2 rest2 = Ok (m, [])"
  proof -
    have "read_frame (json_loads env) (''Content-Length: '' @ str_nat (length c) @ [CR, LF])
        ([CR, LF] @ c) = Ok (m, [])"
      using assms(3-5) by (rule read_frame_round_trip)
    with content_type_line(1) [of "length c" c] content_type_line(3)
      content_length_line(1) [of "length c" c] content_length_line(3) [of "length c"]
    show ?thesis by blast
  qed
  show "read_loop (json_loads env) (header (length c) @ c) =
       (case classify m of
          Ok ev \<Rightarrow> ([ev], Ok ()) | Raise e \<Rightarrow> ([], Raise e) | Unmodelled \<Rightarrow> ([], Unmodelled))"
    using assms(3-5) by (rule read_loop_round_trip)
qed

theorem frame_round_trip_witness:
  "stdin_writes (fst (send quiet_env 0 initialize_msg)) =
     [header 65, ''{\"jsonrpc\": \"2.0\", \"method\": \"initialize\", \"params\": {}, \"id\": 1}'']
   \<and> read_loop (json_loads quiet_env)
        (header 65 @ ''{\"jsonrpc\": \"2.0\", \"method\": \"initialize\", \"params\": {}, \"id\": 1}'')
       = ([Print_notif (JStr ''initialize'')], Ok ())"
proof -
  let ?c = "''{\"jsonrpc\": \"2.0\", \"method\": \"initialize\", \"params\": {}, \"id\": 1}''"
  have a1: "stdin_error quiet_env = (\<lambda>k. None)"
    by (simp add: quiet_env_def)
  have a2: "json_dumps quiet_env initialize_msg = Ok ?c"
    by code_simp
  have a3: "json_loads quiet_env ?c = Ok initialize_msg"
    by code_simp
  have a4: "utf8_valid (map byte ?c)"
    by code_simp
  have len: "length ?c = 65"
    by simp
  have a5: "length ?c < 2 ^ 31"
    by (simp only: len) simp
  have cls: "classify initialize_msg = Ok (Print_notif (JStr ''initialize''))"
    by code_simp
  note rt = frame_round_trip [OF a1 a2 a3 a4 a5, of 0]
  have "stdin_writes (fst (send quiet_env 0 initialize_msg)) = [header 65, ?c]"
    using rt [THEN conjunct1] by (simp only: len)
  moreover have "read_loop (json_loads quiet_env) (header 65 @ ?c)
       = ([Print_notif (JStr ''initialize'')], Ok ())"
    using rt [THEN conjunct2, THEN conjunct2] by (simp only: len cls outcome.case)
  ultimately show ?thesis by (rule conjI)
qed

section \<open>A declared length that the stream does not honour\<close>

lemma read_loop_declared:
  assumes "n < 2 ^ 31"
  shows "read_loop loads (''Content-Length: '' @ str_nat n @ [CR, LF] @ [CR, LF] @ s) =
     (case obind (decode_utf8 (take n s)) loads of
        Raise e \<Rightarrow> ([], Raise e)
      | Unmodelled \<Rightarrow> ([], Unmodelled)
      | Ok m \<Rightarrow>
          (case classify m of
             Raise e \<Rightarrow> ([], Raise e)
           | Unmodelled \<Rightarrow> ([], Unmodelled)
           | Ok ev \<Rightarrow> (ev # fst (read_loop loads (drop n s)), snd (read_loop loads (drop n s)))))"
proof -
  let ?line = "''Content-Length: '' @ str_nat n @ [CR, LF]"
  note line = content_length_line(1,4,2,3)
  have F: "read_frame loads ?line ([CR, LF] @ s)
      = obind (obind (decode_utf8 (take n s)) loads) (\<lambda>m. Ok (m, drop n s))"
    using read_frame_declared [OF assms, of loads s]
    by (simp add: obind_def split: outcome.splits)
  show ?thesis
  proof (cases "obind (decode_utf8 (take n s)) loads")
    case (Raise e)
    with F have "read_frame loads ?line ([CR, LF] @ s) = Raise e"
      by (simp add: obind_def)
    from read_loop_bad_frame(1) [OF line this] Raise show ?thesis by simp
  next
    case Unmodelled
    with F have "read_frame loads ?line ([CR, LF] @ s) = Unmodelled"
      by (simp add: obind_def)
    from read_loop_bad_frame(2) [OF line this] Unmodelled show ?thesis by simp
  next
    case (Ok m)
    with F have frame: "read_frame loads ?line ([CR, LF] @ s) = Ok (m, drop n s)"
      by (simp add: obind_def)
    show ?thesis
    proof (cases "classify m")
      case (Raise e)
      from read_loop_bad_payload(1) [OF line frame Raise] Ok Raise show ?thesis by simp
    next
      case Unmodelled
      from read_loop_bad_payload(2) [OF line frame Unmodelled] Ok Unmodelled show ?thesis by simp
    next
      case payload: (Ok ev)
      from read_loop_frame [OF line frame payload] Ok payload show ?thesis by simp
    qed
  qed
qed

text \<open>
  C2, as amended. The only exceptions of the model are those of \<open>py_exc\<close>; there is no
  framing error. When a frame declares \<open>n\<close> body bytes and the stream ends after fewer,
  \<open>read(n)\<close> returns the bytes that are there, and the loop goes on with this truncated
  body as with a complete one: if it is not valid UTF-8 or not JSON, or the payload cannot
  be classified, that exception ends the loop (and \<open>run\<close> prints it as
  \<open>Error: ...\<close>); otherwise the message is printed and the loop ends normally at
  end-of-stream. In either case the loop ends. \<open>read_loop\<close> is a total function of the
  finite stream: it cannot hang on a stream that has been closed.
\<close>

theorem short_body_is_not_a_framing_error:
  assumes "length s < n" "n < 2 ^ 31"
  shows "read_frame loads (''Content-Length: '' @ str_nat n @ [CR, LF]) ([CR, LF] @ s)
       = obind (decode_utf8 s) (\<lambda>t. obind (loads t) (\<lambda>m. Ok (m, [])))
   \<and> read_loop loads (''Content-Length: '' @ str_nat n @ [CR, LF] @ [CR, LF] @ s) =
     (case obind (decode_utf8 s) loads of
        Raise e \<Rightarrow> ([], Raise e)
      | Unmodelled \<Rightarrow> ([], Unmodelled)
      | Ok m \<Rightarrow>
          (case classify m of
             Raise e \<Rightarrow> ([], Raise e)
           | Unmodelled \<Rightarrow> ([], Unmodelled)
           | Ok ev \<Rightarrow> ([ev], Ok ())))"
proof -
  have available: "take n s = s" "drop n s = []"
    using assms(1) by simp_all
  have "read_frame loads (''Content-Length: '' @ str_nat n @ [CR, LF]) ([CR, LF] @ s)
       = obind (decode_utf8 s) (\<lambda>t. obind (loads t) (\<lambda>m. Ok (m, [])))"
    using read_frame_declared [OF assms(2), of loads s] by (simp only: available)
  moreover have "read_loop loads (''Content-Length: '' @ str_nat n @ [CR, LF] @ [CR, LF] @ s) =
     (case obind (decode_utf8 s) loads of
        Raise e \<Rightarrow> ([], Raise e)
      | Unmodelled \<Rightarrow> ([], Unmodelled)
      | Ok m \<Rightarrow>
          (case classify m of
             Raise e \<Rightarrow> ([], Raise e)
           | Unmodelled \<Rightarrow> ([], Unmodelled)
           | Ok ev \<Rightarrow> ([ev], Ok ())))"
    unfolding read_loop_declared [OF assms(2), of loads s] available read_loop_empty
    by (simp split: outcome.splits)
  ultimately show ?thesis by (rule conjI)
qed

theorem short_body_is_not_a_framing_error_witness:
  "read_frame py_json_loads (''Content-Length: 50'' @ [CR, LF]) ([CR, LF] @ ''{\"id'')
     = Raise JSONDecodeError
   \<and> read_loop py_json_loads (''Content-Length: 50'' @ [CR, LF] @ [CR, LF] @ ''{\"id'')
     = ([], Raise JSONDecodeError)"
proof -
  have len: "length ''{\"id'' < (50::nat)" "(50::nat) < 2 ^ 31"
    by simp_all
  have fifty: "str_nat 50 = ''50''"
    by code_simp
  have body: "decode_utf8 ''{\"id'' = Ok ''{\"id''" "py_json_loads ''{\"id'' = Raise JSONDecodeError"
    by code_simp+
  from short_body_is_not_a_framing_error [OF len, of py_json_loads]
  have "read_frame py_json_loads (''Content-Length: '' @ ''50'' @ [CR, LF]) ([CR, LF] @ ''{\"id'')
     = Raise JSONDecodeError
   \<and> read_loop py_json_loads (''Content-Length: '' @ ''50'' @ [CR, LF] @ [CR, LF] @ ''{\"id'')
     = ([], Raise JSONDecodeError)"
    by (simp only: fifty body obind_def outcome.case)
  then show ?thesis
    by simp
qed

text \<open>
  C2, as stated, fails. A frame declares 50 body bytes and the stream closes after the 10
  bytes \<open>{"id": 1} \<close>: the read loop takes these 10 bytes as the body, prints a response
  with identifier 1 and ends normally. No error is reported and the truncated body is
  accepted silently.
\<close>

theorem length_enforcement_counterexample:
  "length ''{\"id\": 1} '' = 10
   \<and> read_loop py_json_loads (''Content-Length: 50'' @ [CR, LF, CR, LF] @ ''{\"id\": 1} '')
       = ([Print_resp (JInt 1)], Ok ())"
proof -
  have "read_loop py_json_loads (''Content-Length: 50'' @ [CR, LF, CR, LF] @ ''{\"id\": 1} '')
       = ([Print_resp (JInt 1)], Ok ())"
    by code_simp
  then show ?thesis by simp
qed

section \<open>Extra header lines\<close>

text \<open>
  A line that the read loop passes over: a complete line (it ends with its only line
  feed), valid UTF-8, that does not start with \<open>Content-Length:\<close>.
\<close>

definition skipped_line :: "string \<Rightarrow> bool" where
  "skipped_line l =
     (l \<noteq> [] \<and> last l = LF \<and> LF \<notin> set (butlast l) \<and> utf8_valid (map byte l)
      \<and> \<not> startswith l ''Content-Length:'')"

lemma read_loop_skipped_line:
  assumes "skipped_line h"
  shows "read_loop loads (h @ s) = read_loop loads s"
proof -
  from assms have h: "h = butlast h @ [LF]" "LF \<notin> set (butlast h)"
    by (simp_all add: skipped_line_def) (metis append_butlast_last_id)
  have "readline ((butlast h @ [LF]) @ s) = (butlast h @ [LF], s)"
    using readline_line [OF h(2), of s] by simp
  with h(1) have line: "readline (h @ s) = (h, s)"
    by simp
  have "decode_utf8 h = Ok h"
    using assms by (simp add: skipped_line_def decode_utf8_def)
  with line show ?thesis
    using assms by (intro read_loop_skip [of "h @ s" h s h]) (simp_all add: skipped_line_def)
qed

lemma read_loop_skipped_lines:
  assumes "list_all skipped_line hs"
  shows "read_loop loads (concat hs @ s) = read_loop loads s"
  using assms
proof (induction hs)
  case Nil
  show ?case by simp
next
  case (Cons h hs)
  then have "read_loop loads (h @ (concat hs @ s)) = read_loop loads (concat hs @ s)"
    by (intro read_loop_skipped_line) simp
  with Cons show ?case by simp
qed

text \<open>
  C4, as amended. An extra header line inserted anywhere before the
  \<open>Content-Length\<close> line (among any number of other such lines) is passed over: the
  read loop gives the same trace and the same result with it and without it. The line must
  be complete, valid UTF-8 and must not itself start with \<open>Content-Length:\<close>. Nothing
  is promised for a line inserted after the \<open>Content-Length\<close> line: line 101 reads
  exactly one line there, whatever it is, and the body is read right after it.
\<close>

theorem extra_header_before_length:
  assumes "list_all skipped_line before" "skipped_line h" "list_all skipped_line after"
  shows "read_loop loads (concat before @ h @ concat after @ s)
       = read_loop loads (concat before @ concat after @ s)
   \<and> read_loop loads (concat before @ h @ concat after @ s) = read_loop loads s"
proof -
  have "read_loop loads (concat (before @ [h] @ after) @ s) = read_loop loads s"
    using assms by (intro read_loop_skipped_lines) simp
  moreover have "read_loop loads (concat (before @ after) @ s) = read_loop loads s"
    using assms by (intro read_loop_skipped_lines) simp
  ultimately show ?thesis by simp
qed

theorem extra_header_before_length_witness:
  "read_loop py_json_loads
     ((''Content-Type: application/vscode-jsonrpc; charset=utf-8'' @ [CR, LF])
      @ (''X-Extra: 1'' @ [CR, LF])
      @ (''Content-Length: 9'' @ [CR, LF, CR, LF] @ ''{\"id\": 1}''))
   = read_loop py_json_loads
     ((''Content-Type: application/vscode-jsonrpc; charset=utf-8'' @ [CR, LF])
      @ (''Content-Length: 9'' @ [CR, LF, CR, LF] @ ''{\"id\": 1}''))
   \<and> read_loop py_json_loads
     ((''Content-Type: application/vscode-jsonrpc; charset=utf-8'' @ [CR, LF])
      @ (''X-Extra: 1'' @ [CR, LF])
      @ (''Content-Length: 9'' @ [CR, LF, CR, LF] @ ''{\"id\": 1}''))
   = ([Print_resp (JInt 1)], Ok ())"
proof -
  let ?ct = "''Content-Type: application/vscode-jsonrpc; charset=utf-8'' @ [CR, LF]"
  let ?x = "''X-Extra: 1'' @ [CR, LF]"
  let ?f = "''Content-Length: 9'' @ [CR, LF, CR, LF] @ ''{\"id\": 1}''"
  have before: "list_all skipped_line [?ct]"
    by code_simp
  have extra: "skipped_line ?x"
    by code_simp
  have after: "list_all skipped_line []"
    by simp
  have frame: "read_loop py_json_loads ?f = ([Print_resp (JInt 1)], Ok ())"
    by code_simp
  have flat: "concat [?ct] @ ?x @ concat [] @ ?f = ?ct @ ?x @ ?f"
    "concat [?ct] @ concat [] @ ?f = ?ct @ ?f"
    by simp_all
  note both = extra_header_before_length [OF before extra after, of py_json_loads ?f]
  have "read_loop py_json_loads (?ct @ ?x @ ?f) = read_loop py_json_loads (?ct @ ?f)"
    using both [THEN conjunct1] unfolding flat .
  moreover have "read_loop py_json_loads (?ct @ ?x @ ?f) = ([Print_resp (JInt 1)], Ok ())"
    using both [THEN conjunct2] unfolding flat frame .
  ultimately show ?thesis
    by (rule conjI)
qed

text \<open>
  C4, as stated, fails for a header after the \<open>Content-Length\<close> line. The frame
  \<open>Content-Length: 9\<close>, blank line, \<open>{"id": 1}\<close> is printed as a response with
  identifier 1. With the line \<open>X-Extra: 1\<close> inserted between the \<open>Content-Length\<close>
  line and the blank line, that line is consumed in place of the blank line, the 9 bytes
  read as the body are the blank line and \<open>{"id": \<close>, and \<open>json.loads\<close> raises.
\<close>

theorem extra_header_counterexample:
  "read_loop py_json_loads (''Content-Length: 9'' @ [CR, LF, CR, LF] @ ''{\"id\": 1}'')
     = ([Print_resp (JInt 1)], Ok ())
   \<and> read_loop py_json_loads
       (''Content-Length: 9'' @ [CR, LF] @ ''X-Extra: 1'' @ [CR, LF] @ [CR, LF] @ ''{\"id\": 1}'')
     = ([], Raise JSONDecodeError)"
  by code_simp

section \<open>The sieve counts the primes\<close>

subsection \<open>Primes\<close>

lemma is_prime_gt1: "is_prime p \<Longrightarrow> 1 < p"
  by (simp add: is_prime_def)

lemma is_prime_divisor: "is_prime p \<Longrightarrow> d dvd p \<Longrightarrow> d = 1 \<or> d = p"
proof -
  assume p: "is_prime p" and d: "d dvd p"
  then have "0 < p" by (simp add: is_prime_def)
  with d have "0 < d" "d \<le> p"
    by (auto intro: dvd_imp_le dvd_pos_nat)
  show ?thesis
  proof (rule ccontr)
    assume "\<not> (d = 1 \<or> d = p)"
    with \<open>0 < d\<close> \<open>d \<le> p\<close> have "d \<in> {2..<p}" by auto
    with p d show False by (simp add: is_prime_def)
  qed
qed

lemma is_prime_dvd_prime: "is_prime p \<Longrightarrow> is_prime n \<Longrightarrow> p dvd n \<Longrightarrow> p = n"
  using is_prime_divisor [of n p] is_prime_gt1 [of p] by auto

lemma is_prime_odd: "is_prime p \<Longrightarrow> 3 \<le> p \<Longrightarrow> odd p"
proof
  assume p: "is_prime p" "3 \<le> p" and "even p"
  then have "2 dvd p" by simp
  with is_prime_divisor [OF p(1), of 2] p(2) show False by simp
qed

lemma prime_factor_le_sqrt:
  assumes "1 < n" "\<not> is_prime n"
  shows "\<exists>p. is_prime p \<and> p dvd n \<and> p * p \<le> n"
proof -
  from assms obtain d0 where "d0 \<in> {2..<n}" "d0 dvd n"
    by (auto simp: is_prime_def)
  then have ex: "\<exists>d. 2 \<le> d \<and> d < n \<and> d dvd n" by auto
  define p where "p = (LEAST d. 2 \<le> d \<and> d < n \<and> d dvd n)"
  have p: "2 \<le> p" "p < n" "p dvd n"
    using LeastI_ex [OF ex] by (simp_all add: p_def)
  have least: "p \<le> d" if "2 \<le> d" "d < n" "d dvd n" for d
    unfolding p_def using that by (intro Least_le) simp
  have "is_prime p"
    unfolding is_prime_def
  proof (intro conjI ballI)
    show "1 < p" using p(1) by simp
  next
    fix d assume d: "d \<in> {2..<p}"
    show "\<not> d dvd p"
    proof
      assume "d dvd p"
      then have "d dvd n" using p(3) by (rule dvd_trans)
      with d p(2) least [of d] show False by auto
    qed
  qed
  moreover have "p * p \<le> n"
  proof -
    from p(3) obtain m where m: "n = p * m" by (auto simp: dvd_def)
    with p(1,2) assms(1) have "2 \<le> m"
      by (cases m; cases "m - 1") auto
    moreover have "m < n"
    proof -
      have "2 * m \<le> p * m" using p(1) by (intro mult_le_mono1)
      moreover have "0 < m" using \<open>2 \<le> m\<close> by simp
      ultimately show ?thesis using m by simp
    qed
    moreover have "m dvd n" using m by simp
    ultimately have "p \<le> m" by (rule least)
    then have "p * p \<le> p * m" by simp
    with m show ?thesis by simp
  qed
  ultimately show ?thesis using p(3) by blast
qed

lemma odd_dvd_double:
  fixes a m :: nat
  assumes "odd a"
  shows "a dvd 2 * m \<longleftrightarrow> a dvd m"
  using assms by (simp add: coprime_dvd_mult_right_iff)

subsection \<open>The helper loops\<close>

lemma list_setitem_ok:
  "0 \<le> i \<Longrightarrow> i < int (length arr) \<Longrightarrow> list_setitem arr i v = Ok (arr[nat i := v])"
  by (simp add: list_setitem_def list_index_def obind_def)

lemma list_getitem_ok:
  "0 \<le> i \<Longrightarrow> i < int (length arr) \<Longrightarrow> list_getitem arr i = Ok (arr ! nat i)"
  by (simp add: list_getitem_def list_index_def obind_def)

lemma init_sieve_ok:
  assumes "0 \<le> i" "sz \<le> int (length arr)"
  shows "\<exists>arr'. init_sieve arr i sz = Ok arr' \<and> length arr' = length arr
     \<and> (\<forall>k<length arr. arr' ! k = (if i \<le> int k \<and> int k < sz then 1 else arr ! k))"
  using assms
proof (induction "nat (sz - i)" arbitrary: arr i rule: less_induct)
  case less
  show ?case
  proof (cases "i < sz")
    case False
    then show ?thesis by (subst init_sieve.simps) simp
  next
    case True
    let ?arr1 = "arr[nat i := 1]"
    have set: "list_setitem arr i 1 = Ok ?arr1"
      using less.prems True by (intro list_setitem_ok) simp_all
    have "nat (sz - (i + 1)) < nat (sz - i)" using True by simp
    moreover have "0 \<le> i + 1" "sz \<le> int (length ?arr1)"
      using less.prems by simp_all
    ultimately obtain arr' where R: "init_sieve ?arr1 (i + 1) sz = Ok arr'"
        "length arr' = length ?arr1"
        "\<forall>k<length ?arr1. arr' ! k = (if i + 1 \<le> int k \<and> int k < sz then 1 else ?arr1 ! k)"
      using less.hyps [of "i + 1" ?arr1] by blast
    have "init_sieve arr i sz = Ok arr'"
      using True set R(1) by (subst init_sieve.simps) simp
    moreover have "arr' ! k = (if i \<le> int k \<and> int k < sz then 1 else arr ! k)"
      if "k < length arr" for k
    proof (cases "int k = i")
      case True
      with that R(3) \<open>i < sz\<close> show ?thesis by auto
    next
      case False
      then have "k \<noteq> nat i" using less.prems(1) by auto
      with that R(3) False show ?thesis by auto
    qed
    ultimately show ?thesis using R(2) by simp
  qed
qed

lemma clear_multiples_ok:
  assumes "0 < factor" "0 \<le> num" "sz \<le> int (length arr)"
  shows "\<exists>arr'. clear_multiples arr factor num sz = Some (Ok arr') \<and> length arr' = length arr
     \<and> (\<forall>k<length arr. arr' ! k =
           (if num \<le> int k \<and> int k < sz \<and> factor dvd (int k - num) then 0 else arr ! k))"
  using assms(2,3)
proof (induction "nat (sz - num)" arbitrary: arr num rule: less_induct)
  case less
  show ?case
  proof (cases "num < sz")
    case False
    then show ?thesis by (subst clear_multiples.simps) simp
  next
    case True
    let ?arr1 = "arr[nat num := 0]"
    have set: "list_setitem arr num 0 = Ok ?arr1"
      using less.prems True by (intro list_setitem_ok) simp_all
    have "nat (sz - (num + factor)) < nat (sz - num)" using True assms(1) by simp
    moreover have "0 \<le> num + factor" "sz \<le> int (length ?arr1)"
      using less.prems assms(1) by simp_all
    ultimately obtain arr' where R: "clear_multiples ?arr1 factor (num + factor) sz = Some (Ok arr')"
        "length arr' = length ?arr1"
        "\<forall>k<length ?arr1. arr' ! k =
           (if num + factor \<le> int k \<and> int k < sz \<and> factor dvd (int k - (num + factor))
            then 0 else ?arr1 ! k)"
      using less.hyps [of "num + factor" ?arr1] by blast
    have "clear_multiples arr factor num sz = Some (Ok arr')"
      using True set R(1) by (subst clear_multiples.simps) simp
    moreover have "arr' ! k =
        (if num \<le> int k \<and> int k < sz \<and> factor dvd (int k - num) then 0 else arr ! k)"
      if "k < length arr" for k
    proof (cases "int k = num")
      case True
      then have "k = nat num" by simp
      with that R(3) True \<open>num < sz\<close> show ?thesis by auto
    next
      case False
      then have k: "k \<noteq> nat num" using less.prems(1) by auto
      have "(num + factor \<le> int k \<and> factor dvd (int k - (num + factor)))
          \<longleftrightarrow> (num \<le> int k \<and> factor dvd (int k - num))"
      proof
        assume "num + factor \<le> int k \<and> factor dvd (int k - (num + factor))"
        then have "num \<le> int k" "factor dvd (int k - num - factor)"
          using assms(1) by (simp_all add: algebra_simps)
        then show "num \<le> int k \<and> factor dvd (int k - num)"
          by (simp add: dvd_diff_left_iff)
      next
        assume A: "num \<le> int k \<and> factor dvd (int k - num)"
        with False have "0 < int k - num" by simp
        with A have "factor \<le> int k - num"
          by (intro zdvd_imp_le) simp_all
        moreover from A have "factor dvd (int k - num - factor)"
          by (simp add: dvd_diff_left_iff)
        ultimately show "num + factor \<le> int k \<and> factor dvd (int k - (num + factor))"
          by (simp add: algebra_simps)
      qed
      with that R(3) k show ?thesis by auto
    qed
    ultimately show ?thesis using R(2) by simp
  qed
qed

lemma find_next_prime_ok:
  assumes "0 \<le> i" "limit < int (length arr)"
  shows "\<exists>r. find_next_prime arr i limit = Ok r
     \<and> ((r = 0 \<and> (\<forall>k. i \<le> k \<and> k \<le> limit \<longrightarrow> arr ! nat k \<noteq> 1))
        \<or> (i \<le> r \<and> r \<le> limit \<and> arr ! nat r = 1 \<and> (\<forall>k. i \<le> k \<and> k < r \<longrightarrow> arr ! nat k \<noteq> 1)))"
  using assms(1)
proof (induction "nat (limit + 1 - i)" arbitrary: i rule: less_induct)
  case less
  show ?case
  proof (cases "i \<le> limit")
    case False
    then show ?thesis by (subst find_next_prime.simps) simp
  next
    case True
    have get: "list_getitem arr i = Ok (arr ! nat i)"
      using less.prems True assms(2) by (intro list_getitem_ok) simp_all
    show ?thesis
    proof (cases "arr ! nat i = 1")
      case found: True
      have "find_next_prime arr i limit = Ok i"
        using True get found by (subst find_next_prime.simps) simp
      with True found show ?thesis by auto
    next
      case other: False
      have "nat (limit + 1 - (i + 1)) < nat (limit + 1 - i)" using True by simp
      moreover have "0 \<le> i + 1" using less.prems by simp
      ultimately obtain r where R: "find_next_prime arr (i + 1) limit = Ok r"
        "(r = 0 \<and> (\<forall>k. i + 1 \<le> k \<and> k \<le> limit \<longrightarrow> arr ! nat k \<noteq> 1))
         \<or> (i + 1 \<le> r \<and> r \<le> limit \<and> arr ! nat r = 1
             \<and> (\<forall>k. i + 1 \<le> k \<and> k < r \<longrightarrow> arr ! nat k \<noteq> 1))"
        using less.hyps [of "i + 1"] by blast
      have step: "find_next_prime arr i limit = Ok r"
        using True get other R(1) by (subst find_next_prime.simps) simp
      have here: "arr ! nat k \<noteq> 1" if "i \<le> k" "\<not> i + 1 \<le> k" for k
      proof -
        from that have "k = i" by simp
        with other show ?thesis by simp
      qed
      from R(2) show ?thesis
      proof
        assume "r = 0 \<and> (\<forall>k. i + 1 \<le> k \<and> k \<le> limit \<longrightarrow> arr ! nat k \<noteq> 1)"
        with here step show ?thesis by blast
      next
        assume A: "i + 1 \<le> r \<and> r \<le> limit \<and> arr ! nat r = 1
             \<and> (\<forall>k. i + 1 \<le> k \<and> k < r \<longrightarrow> arr ! nat k \<noteq> 1)"
        then have "i \<le> r" by simp
        with A here step show ?thesis by blast
      qed
    qed
  qed
qed

lemma newton_step:
  fixes g n :: int
  assumes "0 < g" "0 \<le> n"
  shows "n < ((g + n div g) div 2 + 1) * ((g + n div g) div 2 + 1)"
proof -
  define d where "d = n div g"
  define s where "s = g + d"
  define h where "h = s div 2"
  have d: "n < g * (d + 1)"
  proof -
    have "n = g * d + n mod g" by (simp add: d_def)
    moreover have "n mod g < g" using assms(1) by simp
    ultimately show ?thesis by (simp add: algebra_simps)
  qed
  have "s \<le> 2 * h + 1" by (simp add: h_def) 
  then have "g + (d + 1) \<le> 2 * (h + 1)" by (simp add: s_def)
  moreover have "0 \<le> d" using assms by (simp add: d_def pos_imp_zdiv_nonneg_iff)
  ultimately have "(g + (d + 1)) * (g + (d + 1)) \<le> (2 * (h + 1)) * (2 * (h + 1))"
    using assms(1) by (intro mult_mono) simp_all
  moreover have "4 * (g * (d + 1)) \<le> (g + (d + 1)) * (g + (d + 1))"
  proof -
    have e: "(g + (d + 1)) * (g + (d + 1)) = 4 * (g * (d + 1)) + (g - (d + 1)) * (g - (d + 1))"
      by (simp add: algebra_simps)
    have "0 \<le> (g - (d + 1)) * (g - (d + 1))" by simp
    then show ?thesis unfolding e by linarith
  qed
  ultimately have "4 * (g * (d + 1)) \<le> 4 * ((h + 1) * (h + 1))"
    by (simp add: algebra_simps)
  then have "g * (d + 1) \<le> (h + 1) * (h + 1)" by simp
  with d show ?thesis by (simp add: h_def s_def d_def)
qed

lemma isqrt_ok:
  assumes "0 < n"
  shows "0 < g \<Longrightarrow> n < (g + 1) * (g + 1)
     \<Longrightarrow> \<exists>q. isqrt n g = Some (Ok q) \<and> 0 < q \<and> q * q \<le> n \<and> n < (q + 1) * (q + 1)"
proof (induction "nat g" arbitrary: g rule: less_induct)
  case less
  define h where "h = (g + n div g) div 2"
  show ?case
  proof (cases "h \<ge> g")
    case True
    have "isqrt n g = Some (Ok g)"
      using less.prems(1) True by (subst isqrt.simps) (simp add: h_def Let_def)
    moreover have "g * g \<le> n"
    proof -
      from True have "2 * g \<le> g + n div g" by (simp add: h_def)
      then have "g \<le> n div g" by simp
      then have "g * g \<le> g * (n div g)" using less.prems(1) by (intro mult_left_mono) simp_all
      also have "\<dots> \<le> n" using less.prems(1) assms
        by (metis add.commute add_increasing2 div_mult_mod_eq less_imp_le mult.commute
            order_refl pos_mod_sign)
      finally show ?thesis .
    qed
    ultimately show ?thesis using less.prems by simp
  next
    case False
    have "0 < h"
    proof -
      have "1 \<le> n div g \<or> 2 \<le> g"
      proof (cases "g = 1")
        case True
        with assms show ?thesis by simp
      next
        case False
        with less.prems(1) show ?thesis by simp
      qed
      moreover have "0 \<le> n div g" using assms less.prems(1) by (simp add: pos_imp_zdiv_nonneg_iff)
      ultimately have "2 \<le> g + n div g" using less.prems(1) by linarith
      then show ?thesis by (simp add: h_def)
    qed
    moreover have "n < (h + 1) * (h + 1)"
      unfolding h_def using less.prems(1) assms by (intro newton_step) simp_all
    moreover have "nat h < nat g" using False \<open>0 < h\<close> by simp
    ultimately obtain q where "isqrt n h = Some (Ok q)" "0 < q" "q * q \<le> n" "n < (q + 1) * (q + 1)"
      using less.hyps [of h] by blast
    moreover have "isqrt n g = isqrt n h"
      using less.prems(1) False by (subst isqrt.simps) (simp add: h_def Let_def)
    ultimately show ?thesis by simp
  qed
qed

lemma count_primes_loop_ok:
  assumes "sz \<le> int (length arr)"
  shows "0 \<le> i \<Longrightarrow> count_primes_loop arr sz c i
      = Ok (c + int (length (filter (\<lambda>k. arr ! k = 1) [nat i..<nat sz])))"
proof (induction "nat (sz - i)" arbitrary: i c rule: less_induct)
  case less
  show ?case
  proof (cases "i < sz")
    case False
    then show ?thesis by (subst count_primes_loop.simps) simp
  next
    case True
    have get: "list_getitem arr i = Ok (arr ! nat i)"
      using less.prems True assms by (intro list_getitem_ok) simp_all
    have "nat (sz - (i + 1)) < nat (sz - i)" using True by simp
    moreover have "0 \<le> i + 1" using less.prems by simp
    ultimately have IH: "count_primes_loop arr sz c' (i + 1)
        = Ok (c' + int (length (filter (\<lambda>k. arr ! k = 1) [nat (i + 1)..<nat sz])))" for c'
      using less.hyps [of "i + 1"] by blast
    have range: "[nat i..<nat sz] = nat i # [nat (i + 1)..<nat sz]"
    proof -
      have "nat i < nat sz" using True less.prems by simp
      moreover have "nat (i + 1) = Suc (nat i)" using less.prems by simp
      ultimately show ?thesis by (simp add: upt_conv_Cons)
    qed
    show ?thesis
      using True get by (subst count_primes_loop.simps) (simp add: IH range)
  qed
qed

subsection \<open>The invariant of the main loop\<close>

text \<open>
  Before each round of the main loop with the odd number \<open>f\<close> in \<open>factor\<close>, the entry
  \<open>k\<close> of the list is 0 exactly when \<open>k = 0\<close> or the odd number \<open>2k + 1\<close> has been
  crossed out: it is a multiple, not below the square, of an odd prime smaller than \<open>f\<close>.
\<close>

definition crossed :: "nat \<Rightarrow> nat \<Rightarrow> bool" where
  "crossed f n = (\<exists>p. is_prime p \<and> 3 \<le> p \<and> p < f \<and> p dvd n \<and> p * p \<le> n)"

definition sieved :: "nat \<Rightarrow> int list \<Rightarrow> bool" where
  "sieved f arr = (\<forall>k<length arr. arr ! k = (if k = 0 \<or> crossed f (2 * k + 1) then 0 else 1))"

lemma crossed_prime: "is_prime n \<Longrightarrow> \<not> crossed f n"
proof
  assume n: "is_prime n" and "crossed f n"
  then obtain p where p: "is_prime p" "p dvd n" "p * p \<le> n"
    by (auto simp: crossed_def)
  with n have "p = n" by (intro is_prime_dvd_prime)
  with p(3) have "n * n \<le> n * 1" by simp
  then have "n \<le> 1" by (simp only: mult_le_cancel1) (use n in \<open>simp add: is_prime_def\<close>)
  with n show False by (simp add: is_prime_def)
qed

lemma crossed_3: "\<not> crossed 3 n"
  by (auto simp: crossed_def)

lemma odd_half: "odd (n::nat) \<Longrightarrow> 2 * (n div 2) + 1 = n"
  by (auto elim: oddE)

lemma no_prime_gap:
  assumes S: "sieved F arr" and F: "odd F" "3 \<le> F"
    and gap: "\<forall>k. F div 2 \<le> k \<and> k < r \<longrightarrow> arr ! k \<noteq> 1" and r: "r \<le> length arr"
    and p: "is_prime p" "F \<le> p" "p < 2 * r + 1"
  shows False
proof -
  have "odd p" using p(1,2) F(2) by (intro is_prime_odd) simp_all
  then have pk: "2 * (p div 2) + 1 = p" by (rule odd_half)
  have "F div 2 \<le> p div 2" using p(2) by (rule div_le_mono)
  moreover have "p div 2 < r" using p(3) pk by linarith
  ultimately have "arr ! (p div 2) \<noteq> 1" using gap by blast
  moreover have "p div 2 < length arr" using \<open>p div 2 < r\<close> r by simp
  moreover have "p div 2 \<noteq> 0" using F(2) p(2) by linarith
  ultimately have "crossed F (2 * (p div 2) + 1)"
    using S by (auto simp: sieved_def split: if_splits)
  with pk p(1) crossed_prime show False by simp
qed

lemma found_is_prime:
  assumes S: "sieved F arr" and F: "odd F" "3 \<le> F"
    and gap: "\<forall>k. F div 2 \<le> k \<and> k < r \<longrightarrow> arr ! k \<noteq> 1" and r: "r < length arr"
    and found: "arr ! r = 1" "F div 2 \<le> r"
  shows "is_prime (2 * r + 1)"
proof (rule ccontr)
  assume composite: "\<not> is_prime (2 * r + 1)"
  have r0: "r \<noteq> 0" "\<not> crossed F (2 * r + 1)"
    using S r found(1) by (auto simp: sieved_def split: if_splits)
  then have "1 < 2 * r + 1" by simp
  from prime_factor_le_sqrt [OF this composite]
  obtain p where p: "is_prime p" "p dvd 2 * r + 1" "p * p \<le> 2 * r + 1"
    by blast
  have "p \<noteq> 2"
  proof
    assume "p = 2"
    with p(2) have "even (2 * r + 1)" by simp
    then show False by simp
  qed
  with p(1) have p3: "3 \<le> p" using is_prime_gt1 [of p] by simp
  have "F \<le> p"
  proof (rule ccontr)
    assume "\<not> F \<le> p"
    with p p3 have "crossed F (2 * r + 1)" by (auto simp: crossed_def)
    with r0 show False by simp
  qed
  moreover have "p < 2 * r + 1"
  proof -
    have "2 * p \<le> p * p" using p3 by simp
    with p(3) show ?thesis using p3 by linarith
  qed
  ultimately show False
    using no_prime_gap [OF S F gap _ p(1)] r by simp
qed

lemma crossed_step:
  assumes S: "sieved F arr" and F: "odd F" "3 \<le> F"
    and gap: "\<forall>k. F div 2 \<le> k \<and> k < r \<longrightarrow> arr ! k \<noteq> 1" and r: "r < length arr"
    and found: "arr ! r = 1" "F div 2 \<le> r"
  shows "crossed (2 * r + 1 + 2) n
     \<longleftrightarrow> crossed F n \<or> ((2 * r + 1) dvd n \<and> (2 * r + 1) * (2 * r + 1) \<le> n)"
proof
  let ?A = "2 * r + 1"
  have A: "is_prime ?A" using assms by (rule found_is_prime)
  have FA: "F \<le> ?A" using found(2) odd_half [OF F(1)] by linarith
  {
    assume "crossed (?A + 2) n"
    then obtain p where p: "is_prime p" "3 \<le> p" "p < ?A + 2" "p dvd n" "p * p \<le> n"
      by (auto simp: crossed_def)
    show "crossed F n \<or> (?A dvd n \<and> ?A * ?A \<le> n)"
    proof (cases "p < F")
      case True
      with p show ?thesis by (auto simp: crossed_def)
    next
      case False
      have "odd p" using p(1,2) by (rule is_prime_odd)
      then have "p \<noteq> ?A + 1" by auto
      with p(3) have "p \<le> ?A" by simp
      have "p = ?A"
      proof (rule ccontr)
        assume "p \<noteq> ?A"
        with \<open>p \<le> ?A\<close> have "p < ?A" by simp
        with no_prime_gap [OF S F gap _ p(1)] False r show False by simp
      qed
      with p show ?thesis by simp
    qed
  }
  {
    assume "crossed F n \<or> (?A dvd n \<and> ?A * ?A \<le> n)"
    then show "crossed (?A + 2) n"
    proof
      assume "crossed F n"
      then obtain p where "is_prime p" "3 \<le> p" "p < F" "p dvd n" "p * p \<le> n"
        by (auto simp: crossed_def)
      with FA show ?thesis by (auto simp: crossed_def)
    next
      assume "?A dvd n \<and> ?A * ?A \<le> n"
      moreover have "3 \<le> ?A" using FA F(2) by simp
      ultimately show ?thesis using A by (auto simp: crossed_def)
    qed
  }
qed

lemma multiple_index:
  fixes A k :: nat
  assumes "odd A"
  shows "(A * A div 2 \<le> k \<and> A dvd (k - A * A div 2)) \<longleftrightarrow> (A dvd (2 * k + 1) \<and> A * A \<le> 2 * k + 1)"
proof -
  define s where "s = A * A div 2"
  have "odd (A * A)" using assms by simp
  then have sq: "A * A = 2 * s + 1" unfolding s_def by (simp add: odd_half)
  show ?thesis
  proof (cases "s \<le> k")
    case False
    then show ?thesis unfolding s_def [symmetric] sq by simp
  next
    case True
    then have "2 * k + 1 = 2 * (k - s) + A * A" using sq by simp
    then have "A dvd (2 * k + 1) \<longleftrightarrow> A dvd 2 * (k - s)"
      by (simp add: dvd_add_left_iff)
    also have "\<dots> \<longleftrightarrow> A dvd (k - s)" using assms by (rule odd_dvd_double)
    finally show ?thesis using True unfolding s_def [symmetric] sq by simp
  qed
qed

lemma sieved_step:
  assumes S: "sieved F arr" and F: "odd F" "3 \<le> F"
    and gap: "\<forall>k. F div 2 \<le> k \<and> k < r \<longrightarrow> arr ! k \<noteq> 1" and r: "r < length arr"
    and found: "arr ! r = 1" "F div 2 \<le> r"
    and len: "length arr' = length arr"
    and cleared: "\<forall>k<length arr. arr' ! k =
       (if (2 * r + 1) * (2 * r + 1) div 2 \<le> k \<and> (2 * r + 1) dvd (k - (2 * r + 1) * (2 * r + 1) div 2)
        then 0 else arr ! k)"
  shows "sieved (2 * r + 1 + 2) arr'"
  unfolding sieved_def
proof (intro allI impI)
  fix k assume k: "k < length arr'"
  let ?A = "2 * r + 1"
  have step: "crossed (?A + 2) (2 * k + 1)
     \<longleftrightarrow> crossed F (2 * k + 1) \<or> (?A dvd (2 * k + 1) \<and> ?A * ?A \<le> 2 * k + 1)"
    using S F gap r found by (rule crossed_step)
  have idx: "(?A * ?A div 2 \<le> k \<and> ?A dvd (k - ?A * ?A div 2))
      \<longleftrightarrow> (?A dvd (2 * k + 1) \<and> ?A * ?A \<le> 2 * k + 1)"
    by (rule multiple_index) simp
  have old: "arr ! k = (if k = 0 \<or> crossed F (2 * k + 1) then 0 else 1)"
    using S k len by (simp add: sieved_def)
  have new: "arr' ! k = (if ?A * ?A div 2 \<le> k \<and> ?A dvd (k - ?A * ?A div 2) then 0 else arr ! k)"
    using cleared k len by simp
  show "arr' ! k = (if k = 0 \<or> crossed (?A + 2) (2 * k + 1) then 0 else 1)"
    unfolding new old step idx by auto
qed

lemma sieved_final:
  assumes S: "sieved F arr" and len: "2 * length arr \<le> L + 1"
    and all: "\<forall>p. is_prime p \<and> 3 \<le> p \<and> p * p \<le> L \<longrightarrow> p < F"
    and k: "k < length arr"
  shows "arr ! k = (if is_prime (2 * k + 1) then 1 else 0)"
proof (cases "k = 0")
  case True
  with S k show ?thesis by (simp add: sieved_def is_prime_def)
next
  case False
  have kL: "2 * k + 1 \<le> L" using k len by linarith
  show ?thesis
  proof (cases "is_prime (2 * k + 1)")
    case True
    with crossed_prime [of "2 * k + 1" F] S k False show ?thesis
      by (simp add: sieved_def)
  next
    case composite: False
    have "1 < 2 * k + 1" using False by simp
    from prime_factor_le_sqrt [OF this composite]
    obtain p where p: "is_prime p" "p dvd 2 * k + 1" "p * p \<le> 2 * k + 1"
      by blast
    have "p \<noteq> 2"
    proof
      assume "p = 2"
      with p(2) have "even (2 * k + 1)" by simp
      then show False by simp
    qed
    with p(1) have p3: "3 \<le> p" using is_prime_gt1 [of p] by simp
    moreover have "p * p \<le> L" using p(3) kL by simp
    ultimately have "p < F" using all p(1) by blast
    with p p3 have "crossed F (2 * k + 1)" by (auto simp: crossed_def)
    with S k composite show ?thesis by (simp add: sieved_def)
  qed
qed

lemma length_filter_upt: "length (filter P [0..<n]) = card {k. k < n \<and> P k}"
proof -
  have "{i. i < length [0..<n] \<and> P ([0..<n] ! i)} = {k. k < n \<and> P k}"
    by auto
  then show ?thesis
    by (simp only: length_filter_conv_card)
qed

lemma count_odd_primes:
  assumes "2 \<le> L"
  shows "length (filter is_prime [0..<L + 1])
     = 1 + length (filter (\<lambda>k. is_prime (2 * k + 1)) [0..<(L + 1) div 2])"
proof -
  let ?N = "(L + 1) div 2"
  let ?odds = "{k. k < ?N \<and> is_prime (2 * k + 1)}"
  have two: "is_prime 2" by (simp add: is_prime_def)
  have "{p. p < L + 1 \<and> is_prime p} = insert 2 ((\<lambda>k. 2 * k + 1) ` ?odds)"
  proof (intro set_eqI iffI)
    fix p assume "p \<in> {p. p < L + 1 \<and> is_prime p}"
    then have p: "p < L + 1" "is_prime p" by simp_all
    show "p \<in> insert 2 ((\<lambda>k. 2 * k + 1) ` ?odds)"
    proof (cases "p = 2")
      case True
      then show ?thesis by simp
    next
      case False
      with p(2) have "3 \<le> p" using is_prime_gt1 [of p] by simp
      with p(2) have "odd p" by (rule is_prime_odd)
      then have pk: "2 * (p div 2) + 1 = p" by (rule odd_half)
      moreover have "p div 2 < ?N" using p(1) pk by linarith
      ultimately have "p div 2 \<in> ?odds" using p(2) by simp
      then have "2 * (p div 2) + 1 \<in> (\<lambda>k. 2 * k + 1) ` ?odds" by (rule imageI)
      with pk show ?thesis by simp
    qed
  next
    fix p assume "p \<in> insert 2 ((\<lambda>k. 2 * k + 1) ` ?odds)"
    then consider "p = 2" | k where "p = 2 * k + 1" "k < ?N" "is_prime (2 * k + 1)"
      by auto
    then show "p \<in> {p. p < L + 1 \<and> is_prime p}"
    proof cases
      case 1
      with assms two show ?thesis by simp
    next
      case 2
      then have "p < L + 1" by linarith
      with 2 show ?thesis by simp
    qed
  qed
  moreover have "2 \<notin> (\<lambda>k. 2 * k + 1) ` ?odds"
  proof
    assume "2 \<in> (\<lambda>k. 2 * k + 1) ` ?odds"
    then obtain k :: nat where "2 = 2 * k + 1" by auto
    then show False by presburger
  qed
  moreover have "finite ((\<lambda>k. 2 * k + 1) ` ?odds)" by simp
  moreover have "card ((\<lambda>k. 2 * k + 1) ` ?odds) = card ?odds"
    by (intro card_image inj_onI) simp
  ultimately have "card {p. p < L + 1 \<and> is_prime p} = 1 + card ?odds"
    by simp
  then show ?thesis
    by (simp only: length_filter_upt)
qed

subsection \<open>The main loop\<close>

lemma sqrt_bound:
  fixes q limit :: int
  assumes "0 < q" "limit < (q + 1) * (q + 1)" "int p * int p \<le> limit"
  shows "int p \<le> q"
proof (rule ccontr)
  assume "\<not> int p \<le> q"
  then have "q + 1 \<le> int p" by simp
  then have "(q + 1) * (q + 1) \<le> int p * int p"
    using assms(1) by (intro mult_mono) simp_all
  with assms(2,3) show False by simp
qed

lemma half_bound:
  fixes q :: int and p :: nat
  assumes "int p \<le> q" "0 \<le> q"
  shows "p < 2 * (nat (q div 2) + 1) + 1"
proof -
  define n where "n = nat (q div 2)"
  have "0 \<le> q div 2" using assms(2) by simp
  then have n: "int n = q div 2" by (simp add: n_def)
  have "q = 2 * (q div 2) + q mod 2" by simp
  moreover have "q mod 2 \<le> 1" by simp
  ultimately have "q \<le> 2 * int n + 1" unfolding n by linarith
  with assms(1) have "int p \<le> int (2 * n + 1)" by simp
  then have "p \<le> 2 * n + 1" by (simp only: of_nat_le_iff)
  then show ?thesis unfolding n_def by simp
qed

lemma cleared_index:
  fixes A k :: nat
  shows "(int A * int A div 2 \<le> int k \<and> int A dvd (int k - int A * int A div 2))
     \<longleftrightarrow> (A * A div 2 \<le> k \<and> A dvd (k - A * A div 2))"
proof -
  have s: "int A * int A div 2 = int (A * A div 2)" by (simp add: zdiv_int)
  show ?thesis
  proof (cases "A * A div 2 \<le> k")
    case True
    then have "int k - int (A * A div 2) = int (k - A * A div 2)" by simp
    with True show ?thesis unfolding s by (simp only: int_dvd_int_iff) simp
  next
    case False
    then show ?thesis unfolding s by simp
  qed
qed

lemma sieve_loop_ok:
  fixes q limit sz :: int
  assumes q: "0 < q" "q * q \<le> limit" "limit < (q + 1) * (q + 1)"
    and sz: "sz = (limit + 1) div 2"
  shows "sieved (nat f) arr \<Longrightarrow> odd f \<Longrightarrow> 3 \<le> f \<Longrightarrow> int (length arr) = sz \<Longrightarrow>
     \<exists>arr'. sieve_loop arr f q sz = Some (Ok arr') \<and> length arr' = length arr
       \<and> (\<forall>k<length arr'. arr' ! k = (if is_prime (2 * k + 1) then 1 else 0))"
proof (induction "nat (q + 2 - f)" arbitrary: arr f rule: less_induct)
  case less
  note S = less.prems(1) and f = less.prems(2,3) and len = less.prems(4)
  let ?F = "nat f"
  have F: "odd ?F" "3 \<le> ?F"
    using f by (simp_all add: even_nat_iff)
  have limit0: "0 \<le> limit"
    using q(2) zero_le_square [of q] by linarith
  have len2: "2 * length arr \<le> nat limit + 1"
  proof -
    have "2 * ((limit + 1) div 2) \<le> limit + 1" by simp
    with len sz have "2 * int (length arr) \<le> limit + 1" by simp
    with limit0 show ?thesis by linarith
  qed
  have small: "int p \<le> q" if "p * p \<le> nat limit" for p
  proof -
    from that limit0 have "int p * int p \<le> limit"
      by (metis int_nat_eq of_nat_le_iff of_nat_mult)
    with q(1,3) show ?thesis by (rule sqrt_bound)
  qed
  have final: "\<exists>arr'. Some (Ok arr) = Some (Ok arr') \<and> length arr' = length arr
       \<and> (\<forall>k<length arr'. arr' ! k = (if is_prime (2 * k + 1) then 1 else 0))"
    if "\<forall>p. is_prime p \<and> 3 \<le> p \<and> p * p \<le> nat limit \<longrightarrow> p < ?F"
    using sieved_final [OF S len2 that] by simp
  show ?case
  proof (cases "f \<le> q")
    case False
    have "sieve_loop arr f q sz = Some (Ok arr)"
      using False by (subst sieve_loop.simps) simp
    moreover have "\<forall>p. is_prime p \<and> 3 \<le> p \<and> p * p \<le> nat limit \<longrightarrow> p < ?F"
    proof (intro allI impI)
      fix p assume "is_prime p \<and> 3 \<le> p \<and> p * p \<le> nat limit"
      then have "int p \<le> q" using small by blast
      with False show "p < ?F" by simp
    qed
    ultimately show ?thesis using final by simp
  next
    case True
    have q3: "3 \<le> q" using True f(2) by simp
    have bound: "q div 2 < int (length arr)"
    proof -
      have "3 * q \<le> q * q" using q3 by (intro mult_right_mono) simp_all
      with q(2) q3 have "q + 2 \<le> limit + 1" by linarith
      then have "(q + 2) div 2 \<le> (limit + 1) div 2" by (rule zdiv_mono1) simp
      then show ?thesis using len sz by simp
    qed
    have "0 \<le> f div 2" using f(2) by simp
    from find_next_prime_ok [OF this bound]
    obtain r where r: "find_next_prime arr (f div 2) (q div 2) = Ok r"
      and found: "(r = 0 \<and> (\<forall>k. f div 2 \<le> k \<and> k \<le> q div 2 \<longrightarrow> arr ! nat k \<noteq> 1))
        \<or> (f div 2 \<le> r \<and> r \<le> q div 2 \<and> arr ! nat r = 1
            \<and> (\<forall>k. f div 2 \<le> k \<and> k < r \<longrightarrow> arr ! nat k \<noteq> 1))"
      by blast
    have half: "?F div 2 = nat (f div 2)"
      using f(2) by (simp add: nat_div_distrib)
    have hq: "int (nat (q div 2)) = q div 2" using q3 by simp
    have hf: "int (nat (f div 2)) = f div 2" using f(2) by simp
    show ?thesis
    proof (cases "r = 0")
      case True
      with found f(2) have none: "\<forall>k. f div 2 \<le> k \<and> k \<le> q div 2 \<longrightarrow> arr ! nat k \<noteq> 1"
        by auto
      have "sieve_loop arr f q sz = Some (Ok arr)"
        using \<open>f \<le> q\<close> r True by (subst sieve_loop.simps) simp
      moreover have "\<forall>p. is_prime p \<and> 3 \<le> p \<and> p * p \<le> nat limit \<longrightarrow> p < ?F"
      proof (intro allI impI, rule ccontr)
        fix p assume p: "is_prime p \<and> 3 \<le> p \<and> p * p \<le> nat limit" and "\<not> p < ?F"
        then have pq: "int p \<le> q" "?F \<le> p" using small by simp_all
        let ?r = "nat (q div 2) + 1"
        have gap: "\<forall>k. ?F div 2 \<le> k \<and> k < ?r \<longrightarrow> arr ! k \<noteq> 1"
        proof (intro allI impI)
          fix k assume "?F div 2 \<le> k \<and> k < ?r"
          then have "f div 2 \<le> int k \<and> int k \<le> q div 2"
            unfolding half using hf hq by linarith
          with none have "arr ! nat (int k) \<noteq> 1" by blast
          then show "arr ! k \<noteq> 1" by simp
        qed
        have "?r \<le> length arr" using bound hq by linarith
        moreover have "p < 2 * ?r + 1"
          using pq(1) q3 by (intro half_bound) simp_all
        ultimately show False
          using no_prime_gap [OF S F gap _ _ pq(2)] p by blast
      qed
      ultimately show ?thesis using final by simp
    next
      case False
      with found have fr: "f div 2 \<le> r" "r \<le> q div 2" "arr ! nat r = 1"
        and none: "\<forall>k. f div 2 \<le> k \<and> k < r \<longrightarrow> arr ! nat k \<noteq> 1"
        by auto
      let ?r = "nat r"
      let ?A = "2 * ?r + 1"
      let ?af = "r * 2 + 1"
      let ?start = "?af * ?af div 2"
      have r0: "0 < r" using fr(1) f(2) by simp
      then have hr: "int (nat r) = r" by simp
      have af: "?af = int ?A" using r0 by simp
      have gap: "\<forall>k. ?F div 2 \<le> k \<and> k < ?r \<longrightarrow> arr ! k \<noteq> 1"
      proof (intro allI impI)
        fix k assume "?F div 2 \<le> k \<and> k < ?r"
        then have "f div 2 \<le> int k \<and> int k < r"
          unfolding half using hf hr by linarith
        with none have "arr ! nat (int k) \<noteq> 1" by blast
        then show "arr ! k \<noteq> 1" by simp
      qed
      have rlen: "?r < length arr" using fr(2) bound hr by linarith
      have rF: "?F div 2 \<le> ?r" unfolding half using fr(1) hf hr by linarith
      have "0 < ?af" "0 \<le> ?start" "sz \<le> int (length arr)"
        using r0 len by (simp_all add: pos_imp_zdiv_nonneg_iff)
      from clear_multiples_ok [OF this]
      obtain arr1 where c: "clear_multiples arr ?af ?start sz = Some (Ok arr1)"
        and len1: "length arr1 = length arr"
        and spec: "\<forall>k<length arr. arr1 ! k =
           (if ?start \<le> int k \<and> int k < sz \<and> ?af dvd (int k - ?start) then 0 else arr ! k)"
        by blast
      have cleared: "\<forall>k<length arr. arr1 ! k =
           (if ?A * ?A div 2 \<le> k \<and> ?A dvd (k - ?A * ?A div 2) then 0 else arr ! k)"
      proof (intro allI impI)
        fix k assume k: "k < length arr"
        then have "int k < sz" using len by simp
        moreover have "(?start \<le> int k \<and> ?af dvd (int k - ?start))
            \<longleftrightarrow> (?A * ?A div 2 \<le> k \<and> ?A dvd (k - ?A * ?A div 2))"
          unfolding af by (rule cleared_index)
        ultimately show "arr1 ! k =
           (if ?A * ?A div 2 \<le> k \<and> ?A dvd (k - ?A * ?A div 2) then 0 else arr ! k)"
          using spec k by simp
      qed
      have S1: "sieved (?A + 2) arr1"
        using S F gap rlen fr(3) rF len1 cleared by (rule sieved_step)
      have next_f: "nat (?af + 2) = ?A + 2" using r0 by simp
      have "f \<le> ?af"
      proof -
        have "f = 2 * (f div 2) + 1" using f(1) by (simp add: odd_two_times_div_two_succ)
        with fr(1) show ?thesis by linarith
      qed
      then have "nat (q + 2 - (?af + 2)) < nat (q + 2 - f)"
        using \<open>f \<le> q\<close> by simp
      moreover have "sieved (nat (?af + 2)) arr1" using S1 next_f by simp
      moreover have "odd (?af + 2)" "3 \<le> ?af + 2" using r0 by simp_all
      moreover have "int (length arr1) = sz" using len len1 by simp
      ultimately obtain arr' where R: "sieve_loop arr1 (?af + 2) q sz = Some (Ok arr')"
        "length arr' = length arr1"
        "\<forall>k<length arr'. arr' ! k = (if is_prime (2 * k + 1) then 1 else 0)"
        using less.hyps [of "?af + 2" arr1] by blast
      have "sieve_loop arr f q sz = sieve_loop arr1 (?af + 2) q sz"
        using \<open>f \<le> q\<close> r False c by (subst sieve_loop.simps) (simp add: Let_def)
      with R len1 show ?thesis by simp
    qed
  qed
qed

subsection \<open>The result\<close>

lemma start_guess:
  fixes limit :: int
  assumes "2 \<le> limit"
  shows "0 < limit div 2" "limit < (limit div 2 + 1) * (limit div 2 + 1)"
proof -
  define h where "h = limit div 2"
  have h1: "1 \<le> h" using assms by (simp add: h_def)
  then show "0 < limit div 2" by (simp add: h_def)
  have "limit = 2 * h + limit mod 2" by (simp add: h_def)
  moreover have "limit mod 2 \<le> 1" by simp
  ultimately have le: "limit \<le> 2 * h + 1" by linarith
  have "1 * 1 \<le> h * h" using h1 by (intro mult_mono) simp_all
  then have sq: "1 \<le> h * h" by simp
  have "(h + 1) * (h + 1) = h * h + 2 * h + 1" by (simp add: algebra_simps)
  with sq le have "limit < (h + 1) * (h + 1)" by linarith
  then show "limit < (limit div 2 + 1) * (limit div 2 + 1)" by (simp add: h_def)
qed

lemma count_primes_ok:
  assumes "int (length arr) = sz"
    and "\<forall>k<length arr. arr ! k = (if is_prime (2 * k + 1) then 1 else 0)"
  shows "count_primes arr sz
     = Ok (1 + int (length (filter (\<lambda>k. is_prime (2 * k + 1)) [0..<length arr])))"
proof -
  have n: "nat sz = length arr" using assms(1) by auto
  have "count_primes arr sz = Ok (1 + int (length (filter (\<lambda>k. arr ! k = 1) [nat 0..<nat sz])))"
    unfolding count_primes_def using assms(1) by (intro count_primes_loop_ok) simp_all
  moreover have "filter (\<lambda>k. arr ! k = 1) [0..<length arr]
      = filter (\<lambda>k. is_prime (2 * k + 1)) [0..<length arr]"
    using assms(2) by (intro filter_cong) auto
  ultimately show ?thesis by (simp add: n)
qed

lemma initial_sieved:
  assumes "\<forall>k<length arr. arr ! k = 1" "0 < length arr"
  shows "sieved 3 (arr[0 := 0])"
  unfolding sieved_def
proof (intro allI impI)
  fix k assume "k < length (arr[0 := 0])"
  with assms show "arr[0 := 0] ! k = (if k = 0 \<or> crossed 3 (2 * k + 1) then 0 else 1)"
    by (cases "k = 0") (simp_all add: crossed_3)
qed

lemma primes_upto_card: "length (primes_upto limit) = card {p. is_prime p \<and> int p \<le> limit}"
proof -
  have "{k. k < nat (limit + 1) \<and> is_prime k} = {p. is_prime p \<and> int p \<le> limit}"
    by auto
  then show ?thesis
    by (simp only: primes_upto_def length_filter_upt)
qed

text \<open>
  C10. For every \<open>limit \<ge> 2\<close>, \<open>run_sieve\<close> returns (none of its loops runs forever,
  no index is out of range and no division is by zero), and the number it returns is the
  number of primes up to \<open>limit\<close>: \<open>primes_upto limit\<close> lists the primes \<open>p \<le> limit\<close>
  in increasing order, and its length is the cardinality of that set
  (\<open>primes_upto_card\<close>).
\<close>

theorem run_sieve_counts_primes:
  assumes "2 \<le> limit"
  shows "run_sieve limit = Some (Ok (int (length (primes_upto limit))))"
proof -
  define sz where "sz = (limit + 1) div 2"
  define n where "n = nat sz"
  have sz1: "1 \<le> sz" using assms by (simp add: sz_def)
  then have n: "int n = sz" "0 < n" by (simp_all add: n_def)
  let ?arr0 = "replicate n (0::int)"
  have "0 \<le> (0::int)" "sz \<le> int (length ?arr0)" using n by simp_all
  from init_sieve_ok [OF this]
  obtain arr1 where init: "init_sieve ?arr0 0 sz = Ok arr1" and len1: "length arr1 = n"
    and ones: "\<forall>k<length ?arr0. arr1 ! k = (if 0 \<le> int k \<and> int k < sz then 1 else ?arr0 ! k)"
    by auto
  have all1: "\<forall>k<length arr1. arr1 ! k = 1"
    using ones len1 n(1) by auto
  let ?arr2 = "arr1[0 := 0]"
  have set0: "list_setitem arr1 0 0 = Ok ?arr2"
    using len1 n(2) list_setitem_ok [of 0 arr1 0] by simp
  have S: "sieved (nat 3) ?arr2"
    using initial_sieved [OF all1] len1 n(2) by simp
  have len2: "int (length ?arr2) = sz" using len1 n(1) by simp
  have "0 < limit" using assms by simp
  from isqrt_ok [OF this start_guess [OF assms]]
  obtain q where root: "isqrt limit (limit div 2) = Some (Ok q)"
    and q: "0 < q" "q * q \<le> limit" "limit < (q + 1) * (q + 1)"
    by blast
  from sieve_loop_ok [OF q sz_def S _ _ len2]
  obtain arr3 where loop: "sieve_loop ?arr2 3 q sz = Some (Ok arr3)"
    and len3: "length arr3 = length ?arr2"
    and primes: "\<forall>k<length arr3. arr3 ! k = (if is_prime (2 * k + 1) then 1 else 0)"
    by auto
  have len3': "int (length arr3) = sz" "length arr3 = n" using len3 len2 len1 by simp_all
  have count: "count_primes arr3 sz
      = Ok (1 + int (length (filter (\<lambda>k. is_prime (2 * k + 1)) [0..<n])))"
    using count_primes_ok [OF len3'(1) primes] len3'(2) by simp
  have L: "2 \<le> nat limit" "(nat limit + 1) div 2 = n" "nat (limit + 1) = nat limit + 1"
  proof -
    show "2 \<le> nat limit" using assms by simp
    show "nat (limit + 1) = nat limit + 1" using assms by simp
    have "int ((nat limit + 1) div 2) = (limit + 1) div 2"
      using assms by (simp add: zdiv_int)
    then show "(nat limit + 1) div 2 = n" unfolding n_def sz_def by simp
  qed
  have "length (primes_upto limit)
      = 1 + length (filter (\<lambda>k. is_prime (2 * k + 1)) [0..<n])"
    unfolding primes_upto_def L(3) using count_odd_primes [OF L(1)] L(2) by simp
  then have result: "count_primes arr3 sz = Ok (int (length (primes_upto limit)))"
    using count by simp
  show ?thesis
    unfolding run_sieve_def Let_def sz_def [symmetric]
    using init set0 root loop result
    by (simp add: n_def)
qed

theorem run_sieve_counts_primes_witness:
  "run_sieve 30 = Some (Ok 10) \<and> primes_upto 30 = [2, 3, 5, 7, 11, 13, 17, 19, 23, 29]
   \<and> run_sieve 2 = Some (Ok 1) \<and> primes_upto 2 = [2]"
proof -
  have p30: "primes_upto 30 = [2, 3, 5, 7, 11, 13, 17, 19, 23, 29]"
    by code_simp
  have p2: "primes_upto 2 = [2]"
    by code_simp
  have "run_sieve 30 = Some (Ok 10)"
    using run_sieve_counts_primes [of 30] by (simp add: p30)
  moreover have "run_sieve 2 = Some (Ok 1)"
    using run_sieve_counts_primes [of 2] by (simp add: p2)
  ultimately show ?thesis using p30 p2 by simp
qed

end

